theory Spec2Isabelle
  imports Complex_Main "HOL-Library.Sublist"
begin

text \<open>
  The event resolution of the bet linker, \<^verbatim>\<open>src/matcher.js\<close>: the lexical scorer
  \<^verbatim>\<open>findMatchingEventSimple\<close> with its name normalization, the escalation to a remote
  resolver \<^verbatim>\<open>findMatchingEventLLM\<close>, and the policy \<^verbatim>\<open>findMatchingEventWithDebug\<close> that
  decides between them by confidence thresholds.
\<close>

section \<open>Strings of the host language\<close>

text \<open>
  A JavaScript string is a sequence of UTF-16 code units. A code unit is a natural
  number here, so that the combining marks U+0300..U+036F and the Unicode white space
  that \<^verbatim>\<open>normalizePlayerName\<close> tests for can be written down. \<open>ascii\<close> embeds an
  Isabelle string literal.
\<close>

type_synonym jstring = "nat list"

definition ascii :: "string \<Rightarrow> jstring" where
  "ascii s = map of_char s"

text \<open>\<^verbatim>\<open>hay.startsWith(needle)\<close> and \<^verbatim>\<open>hay.includes(needle)\<close>: a contiguous occurrence.\<close>

fun startsWith :: "jstring \<Rightarrow> jstring \<Rightarrow> bool" where
  "startsWith hay [] = True"
| "startsWith [] (n # ns) = False"
| "startsWith (h # hs) (n # ns) = (h = n \<and> startsWith hs ns)"

fun str_includes :: "jstring \<Rightarrow> jstring \<Rightarrow> bool" where
  "str_includes [] needle = (needle = [])"
| "str_includes (h # hs) needle = (startsWith (h # hs) needle \<or> str_includes hs needle)"

text \<open>\<^verbatim>\<open>s.split(' ')\<close>, for a separator of one code unit: never the empty list.\<close>

fun split :: "nat \<Rightarrow> jstring \<Rightarrow> jstring list" where
  "split sep [] = [[]]"
| "split sep (c # cs) =
     (if c = sep then [] # split sep cs
      else (case split sep cs of [] \<Rightarrow> [[c]] | t # ts \<Rightarrow> (c # t) # ts))"

text \<open>
  The character classes of the three regular expressions:
  \<^verbatim>\<open>[\u0300-\u036f]\<close>, \<^verbatim>\<open>[a-z0-9]\<close> and \<^verbatim>\<open>\s\<close> (ECMAScript's WhiteSpace and
  LineTerminator code points, which is also what \<^verbatim>\<open>trim\<close> removes).
\<close>

definition is_mark :: "nat \<Rightarrow> bool" where
  "is_mark c = (0x300 \<le> c \<and> c \<le> 0x36F)"

definition is_az09 :: "nat \<Rightarrow> bool" where
  "is_az09 c = ((0x61 \<le> c \<and> c \<le> 0x7A) \<or> (0x30 \<le> c \<and> c \<le> 0x39))"

definition is_space :: "nat \<Rightarrow> bool" where
  "is_space c =
     (c = 0x9 \<or> c = 0xA \<or> c = 0xB \<or> c = 0xC \<or> c = 0xD \<or> c = 0x20 \<or> c = 0xA0 \<or>
      c = 0x1680 \<or> (0x2000 \<le> c \<and> c \<le> 0x200A) \<or> c = 0x2028 \<or> c = 0x2029 \<or>
      c = 0x202F \<or> c = 0x205F \<or> c = 0x3000 \<or> c = 0xFEFF)"

text \<open>\<^verbatim>\<open>.replace(/\s+/g, ' ')\<close>: every maximal run of white space becomes one space.\<close>

function collapse :: "jstring \<Rightarrow> jstring" where
  "collapse [] = []"
| "collapse (c # cs) =
     (if is_space c then 0x20 # collapse (dropWhile is_space cs) else c # collapse cs)"
  by pat_completeness auto
termination
  by (relation "measure length") (auto simp: length_dropWhile_le less_Suc_eq_le)

text \<open>\<^verbatim>\<open>.trim()\<close>: white space is removed at both ends.\<close>

definition trimEnd :: "jstring \<Rightarrow> jstring" where
  "trimEnd s = rev (dropWhile is_space (rev s))"

definition trim :: "jstring \<Rightarrow> jstring" where
  "trim s = dropWhile is_space (trimEnd s)"

text \<open>
  \<^verbatim>\<open>toLowerCase\<close> and \<^verbatim>\<open>normalize('NFD')\<close> are built-ins of the host, not code of the
  repository. They are a parameter of the model: every definition below takes the host's
  two functions, and the theorems hold for every host (idempotence of normalization for
  every host that leaves strings over \<^verbatim>\<open>[a-z0-9 ]\<close> alone, as Unicode does).
\<close>

record unicode =
  toLowerCase :: "jstring \<Rightarrow> jstring"
  normalizeNFD :: "jstring \<Rightarrow> jstring"

text \<open>
  \<^verbatim>\<open>
  function normalizePlayerName(name) {
    return name
      .toLowerCase()
      .normalize('NFD')
      .replace(/[\u0300-\u036f]/g, '') // Remove accents
      .replace(/[^a-z0-9\s]/g, '') // Remove special chars
      .replace(/\s+/g, ' ')
      .trim();
  }
  \<close>
\<close>

definition normalizePlayerName :: "unicode \<Rightarrow> jstring \<Rightarrow> jstring" where
  "normalizePlayerName U name =
     trim (collapse (filter (\<lambda>c. is_az09 c \<or> is_space c)
       (filter (\<lambda>c. \<not> is_mark c) (normalizeNFD U (toLowerCase U name)))))"

subsection \<open>A concrete host for Basic Latin and Latin-1\<close>

text \<open>
  A host to evaluate examples with: ECMAScript's \<^verbatim>\<open>toLowerCase\<close> and Unicode's canonical
  decomposition, written out for the code units up to U+00FF (Basic Latin and Latin-1
  Supplement, which hold the accented letters of the examples). \<open>latin1\<close> is exact on
  strings of such code units; it leaves every other code unit as it is, which the real
  tables do not.
\<close>

definition lower_unit :: "nat \<Rightarrow> nat" where
  "lower_unit c =
     (if (0x41 \<le> c \<and> c \<le> 0x5A) \<or> (0xC0 \<le> c \<and> c \<le> 0xDE \<and> c \<noteq> 0xD7) then c + 0x20 else c)"

text \<open>
  The canonical decompositions of U+00C0..U+00DE, as (code unit, base letter, mark);
  the small letters U+00E0..U+00FE decompose alike, 0x20 higher, and U+00FF is y with
  diaeresis.
\<close>

definition latin1_capitals :: "(nat \<times> nat \<times> nat) list" where
  "latin1_capitals =
     [(0xC0, 0x41, 0x300), (0xC1, 0x41, 0x301), (0xC2, 0x41, 0x302), (0xC3, 0x41, 0x303),
      (0xC4, 0x41, 0x308), (0xC5, 0x41, 0x30A), (0xC7, 0x43, 0x327),
      (0xC8, 0x45, 0x300), (0xC9, 0x45, 0x301), (0xCA, 0x45, 0x302), (0xCB, 0x45, 0x308),
      (0xCC, 0x49, 0x300), (0xCD, 0x49, 0x301), (0xCE, 0x49, 0x302), (0xCF, 0x49, 0x308),
      (0xD1, 0x4E, 0x303),
      (0xD2, 0x4F, 0x300), (0xD3, 0x4F, 0x301), (0xD4, 0x4F, 0x302), (0xD5, 0x4F, 0x303),
      (0xD6, 0x4F, 0x308),
      (0xD9, 0x55, 0x300), (0xDA, 0x55, 0x301), (0xDB, 0x55, 0x302), (0xDC, 0x55, 0x308),
      (0xDD, 0x59, 0x301)]"

definition decompose_unit :: "nat \<Rightarrow> jstring" where
  "decompose_unit c =
     (if c = 0xFF then [0x79, 0x308]
      else if 0xE0 \<le> c \<and> c \<le> 0xFE then
        (case map_of latin1_capitals (c - 0x20) of
           None \<Rightarrow> [c] | Some (b, m) \<Rightarrow> [b + 0x20, m])
      else (case map_of latin1_capitals c of None \<Rightarrow> [c] | Some (b, m) \<Rightarrow> [b, m]))"

definition latin1 :: unicode where
  "latin1 = \<lparr> toLowerCase = map lower_unit, normalizeNFD = concat \<circ> map decompose_unit \<rparr>"



fun single_spaced :: "jstring \<Rightarrow> bool" where
  "single_spaced [] = True"
| "single_spaced (c # cs) =
     (if is_space c
      then c = 0x20 \<and> (case cs of [] \<Rightarrow> True | d # _ \<Rightarrow> \<not> is_space d) \<and> single_spaced cs
      else single_spaced cs)"

section \<open>The data model\<close>

text \<open>
  An optional string field is \<open>None\<close> when the property is \<^verbatim>\<open>undefined\<close> or \<^verbatim>\<open>null\<close>.
  \<open>truthy\<close> is JavaScript's test \<^verbatim>\<open>if (v)\<close> on such a field: present and not empty.
  An array that is absent takes the same branch as the empty one wherever the code
  inspects it (\<^verbatim>\<open>!players || players.length === 0\<close>, \<^verbatim>\<open>!events || events.length === 0\<close>),
  so \<open>[]\<close> stands for both.
\<close>

definition truthy :: "jstring option \<Rightarrow> bool" where
  "truthy v = (case v of None \<Rightarrow> False | Some s \<Rightarrow> s \<noteq> [])"

record event =
  sport :: "jstring option"
  league :: "jstring option"
  participant1 :: "jstring option"
  participant2 :: "jstring option"
  description :: "jstring option"
  displayName :: "jstring option"
  startTime :: "jstring option"

record pick =
  players :: "jstring list"
  sport :: "jstring option"
  league :: "jstring option"

section \<open>Numbers of the host language\<close>

text \<open>
  Scores and confidences are JavaScript numbers, that is IEEE 754 binary64 values. A
  finite double is the real number it denotes. \<open>double_of q\<close> is the double nearest to
  \<open>q\<close>: the significand has 53 bits, the exponent of the last place is at least -1074
  (the subnormal numbers), and a tie is rounded to the even significand. A decimal
  literal of the source denotes the double nearest to it, and \<^verbatim>\<open>+\<close> and \<^verbatim>\<open>-\<close> round the
  exact result in the same way, so \<^verbatim>\<open>0.2 + 0.1 + 0.4\<close> is \<^verbatim>\<open>0.7000000000000001\<close> and not
  the literal \<^verbatim>\<open>0.7\<close>.

  Infinity and NaN are no values of \<open>double\<close>: a sum would have to pass \<open>2 ^ 1024\<close> to
  overflow, and a score is a sum of at most \<^verbatim>\<open>players.length + 2\<close> bonuses of at most 0.7
  each, with fewer than \<open>2 ^ 32\<close> players in an array. The sign of a zero is not kept; no
  operation of the scorer tells the two zeros apart.
\<close>

type_synonym double = real

text \<open>The binary exponent of a positive number: \<open>2 powi exponent a \<le> a < 2 powi (exponent a + 1)\<close>.\<close>

function expo_up :: "real \<Rightarrow> int" where
  "expo_up a = (if 2 \<le> a then expo_up (a / 2) + 1 else 0)"
  by pat_completeness auto
termination
proof (relation "measure (\<lambda>a. nat \<lfloor>a\<rfloor>)")
  show "wf (measure (\<lambda>a::real. nat \<lfloor>a\<rfloor>))" by simp
next
  fix a :: real assume a: "2 \<le> a"
  then have "\<lfloor>a / 2\<rfloor> < \<lfloor>a\<rfloor>" by linarith
  moreover from a have "0 < \<lfloor>a\<rfloor>" by linarith
  ultimately show "(a / 2, a) \<in> measure (\<lambda>a. nat \<lfloor>a\<rfloor>)" by simp
qed

function expo_down :: "real \<Rightarrow> int" where
  "expo_down a = (if 0 < a \<and> a < 1 then expo_down (2 * a) - 1 else 0)"
  by pat_completeness auto
termination
proof (relation "measure (\<lambda>a. nat \<lceil>1 / a\<rceil>)")
  show "wf (measure (\<lambda>a::real. nat \<lceil>1 / a\<rceil>))" by simp
next
  fix a :: real assume a: "0 < a \<and> a < 1"
  define x where "x = 1 / a"
  from a have x: "1 < x" by (simp add: x_def)
  have half: "1 / (2 * a) = x / 2" by (simp add: x_def)
  have "x / 2 \<le> of_int (\<lceil>x\<rceil> - 1)"
  proof -
    have c: "x \<le> of_int \<lceil>x\<rceil>" by (rule le_of_int_ceiling)
    from x have "2 \<le> \<lceil>x\<rceil>" by linarith
    then have "(2::real) \<le> of_int \<lceil>x\<rceil>" by (metis of_int_le_iff of_int_numeral)
    with c have "x / 2 \<le> of_int \<lceil>x\<rceil> - 1" by linarith
    then show ?thesis by simp
  qed
  then have "\<lceil>x / 2\<rceil> \<le> \<lceil>x\<rceil> - 1" by (simp only: ceiling_le_iff)
  moreover from x have "0 < \<lceil>x\<rceil>" by linarith
  ultimately show "(2 * a, a) \<in> measure (\<lambda>a. nat \<lceil>1 / a\<rceil>)"
    by (simp add: half flip: x_def)
qed

declare expo_up.simps [simp del] expo_down.simps [simp del]

definition exponent :: "real \<Rightarrow> int" where
  "exponent a = (if 1 \<le> a then expo_up a else expo_down a)"

definition roundTiesToEven :: "real \<Rightarrow> int" where
  "roundTiesToEven x =
     (let n = \<lfloor>x\<rfloor>; r = x - of_int n
      in if r < 1 / 2 then n else if 1 / 2 < r then n + 1 else if even n then n else n + 1)"

definition double_of :: "real \<Rightarrow> double" where
  "double_of q =
     (if q = 0 then 0
      else (let ulp = 2 powi (max (exponent \<bar>q\<bar>) (- 1022) - 52)
            in sgn q * of_int (roundTiesToEven (\<bar>q\<bar> / ulp)) * ulp))"

text \<open>\<^verbatim>\<open>x + y\<close> and \<^verbatim>\<open>x - y\<close> on doubles.\<close>

definition fadd :: "double \<Rightarrow> double \<Rightarrow> double" where
  "fadd x y = double_of (x + y)"

definition fsub :: "double \<Rightarrow> double \<Rightarrow> double" where
  "fsub x y = double_of (x - y)"

text \<open>The real numbers that are doubles.\<close>

definition representable :: "real \<Rightarrow> bool" where
  "representable x = (\<exists>m e. x = of_int m * 2 powi e \<and> \<bar>m\<bar> < 2 ^ 53 \<and> - 1074 \<le> e)"

text \<open>
  The decimal literals of \<^verbatim>\<open>matcher.js\<close>: the bonuses \<^verbatim>\<open>0.1\<close>, \<^verbatim>\<open>0.2\<close>, \<^verbatim>\<open>0.4\<close>, \<^verbatim>\<open>0.5\<close>,
  \<^verbatim>\<open>0.6\<close>, \<^verbatim>\<open>0.7\<close>, the thresholds \<^verbatim>\<open>0.3\<close>, \<^verbatim>\<open>0.5\<close>, \<^verbatim>\<open>0.7\<close> and the confidence \<^verbatim>\<open>0.9\<close> of
  a selection by the resolver. (\<^verbatim>\<open>0\<close>, \<^verbatim>\<open>1.0\<close> and \<^verbatim>\<open>0.5\<close> are doubles themselves.)
\<close>

definition lit01 :: double where "lit01 = double_of 0.1"
definition lit02 :: double where "lit02 = double_of 0.2"
definition lit03 :: double where "lit03 = double_of 0.3"
definition lit04 :: double where "lit04 = double_of 0.4"
definition lit05 :: double where "lit05 = double_of 0.5"
definition lit06 :: double where "lit06 = double_of 0.6"
definition lit07 :: double where "lit07 = double_of 0.7"
definition lit09 :: double where "lit09 = double_of 0.9"

section \<open>The lexical scorer\<close>

text \<open>\<^verbatim>\<open>[...].filter(Boolean)\<close> on optional strings.\<close>

fun filter_Boolean :: "jstring option list \<Rightarrow> jstring list" where
  "filter_Boolean [] = []"
| "filter_Boolean (None # vs) = filter_Boolean vs"
| "filter_Boolean (Some s # vs) = (if s \<noteq> [] then s # filter_Boolean vs else filter_Boolean vs)"

definition participants :: "unicode \<Rightarrow> event \<Rightarrow> jstring list" where
  "participants U ev =
     map (normalizePlayerName U)
       (filter_Boolean [participant1 ev, participant2 ev, event.description ev, displayName ev])"

text \<open>
  The innermost loop, over the parts of the player's name. Its state is the pair of the
  mutable variables \<^verbatim>\<open>score\<close> and \<^verbatim>\<open>playerMatched\<close>; its \<^verbatim>\<open>break\<close> leaves this loop only.
  \<^verbatim>\<open>
  for (const part of playerParts) {
    if (part.length > 2 && participantParts.some(pp => pp === part || pp.includes(part))) {
      score += 0.4;
      playerMatched = true;
      break;
    }
  }
  \<close>
\<close>

fun parts_loop :: "jstring list \<Rightarrow> jstring list \<Rightarrow> double \<times> bool \<Rightarrow> double \<times> bool" where
  "parts_loop [] participantParts (score, playerMatched) = (score, playerMatched)"
| "parts_loop (part # rest) participantParts (score, playerMatched) =
     (if 2 < length part \<and> list_ex (\<lambda>pp. pp = part \<or> str_includes pp part) participantParts
      then (fadd score lit04, True)
      else parts_loop rest participantParts (score, playerMatched))"

text \<open>
  The loop over the participants of one event, for one player.
  \<^verbatim>\<open>
  let playerMatched = false;
  for (const participant of participants) {
    if (playerMatched) break;
    if (participant === normalizedPlayer) { score += 0.7; playerMatched = true; break; }
    if (participant.includes(normalizedPlayer) && normalizedPlayer.length >= 3) {
      score += 0.6; playerMatched = true; break;
    }
    if (normalizedPlayer.includes(participant) && participant.length >= 3) {
      score += 0.5; playerMatched = true; break;
    }
    const playerParts = normalizedPlayer.split(' ');
    const participantParts = participant.split(' ');
    for (const part of playerParts) { ... }
  }
  \<close>
\<close>

fun participants_loop :: "jstring \<Rightarrow> jstring list \<Rightarrow> double \<times> bool \<Rightarrow> double \<times> bool" where
  "participants_loop normalizedPlayer [] (score, playerMatched) = (score, playerMatched)"
| "participants_loop normalizedPlayer (participant # rest) (score, playerMatched) =
     (if playerMatched then (score, playerMatched)
      else if participant = normalizedPlayer then (fadd score lit07, True)
      else if str_includes participant normalizedPlayer \<and> 3 \<le> length normalizedPlayer
        then (fadd score lit06, True)
      else if str_includes normalizedPlayer participant \<and> 3 \<le> length participant
        then (fadd score lit05, True)
      else participants_loop normalizedPlayer rest
             (parts_loop (split 0x20 normalizedPlayer) (split 0x20 participant)
                (score, playerMatched)))"

text \<open>\<^verbatim>\<open>for (const playerName of players) { ... }\<close>, threading \<^verbatim>\<open>score\<close>.\<close>

fun players_loop :: "unicode \<Rightarrow> event \<Rightarrow> jstring list \<Rightarrow> double \<Rightarrow> double" where
  "players_loop U ev [] score = score"
| "players_loop U ev (playerName # rest) score =
     players_loop U ev rest
       (fst (participants_loop (normalizePlayerName U playerName) (participants U ev)
          (score, False)))"

text \<open>
  The body of \<^verbatim>\<open>for (const event of events)\<close> up to the score of the event:
  \<^verbatim>\<open>
  let score = 0;
  if (sport && event.sport) {
    if (event.sport.toLowerCase() === sport.toLowerCase()) { score += 0.2; }
  }
  if (league && event.league) {
    if (event.league.toLowerCase().includes(league.toLowerCase())) { score += 0.1; }
  }
  for (const playerName of players) { ... }
  \<close>
\<close>

definition sport_step :: "unicode \<Rightarrow> pick \<Rightarrow> event \<Rightarrow> double \<Rightarrow> double" where
  "sport_step U p ev score =
     (case (pick.sport p, event.sport ev) of
        (Some pickSport, Some eventSport) \<Rightarrow>
          if pickSport \<noteq> [] \<and> eventSport \<noteq> [] \<and>
             toLowerCase U eventSport = toLowerCase U pickSport
          then fadd score lit02 else score
      | _ \<Rightarrow> score)"

definition league_step :: "unicode \<Rightarrow> pick \<Rightarrow> event \<Rightarrow> double \<Rightarrow> double" where
  "league_step U p ev score =
     (case (pick.league p, event.league ev) of
        (Some pickLeague, Some eventLeague) \<Rightarrow>
          if pickLeague \<noteq> [] \<and> eventLeague \<noteq> [] \<and>
             str_includes (toLowerCase U eventLeague) (toLowerCase U pickLeague)
          then fadd score lit01 else score
      | _ \<Rightarrow> score)"

definition event_score :: "unicode \<Rightarrow> pick \<Rightarrow> event \<Rightarrow> double" where
  "event_score U p ev = players_loop U ev (players p) (league_step U p ev (sport_step U p ev 0))"

text \<open>An entry of \<^verbatim>\<open>allCandidates\<close>: \<^verbatim>\<open>{ event, score }\<close>.\<close>

record candidate =
  event :: event
  score :: double

text \<open>
  The loop over the events. Its state is \<^verbatim>\<open>(bestMatch, bestScore, allCandidates)\<close>.
  \<^verbatim>\<open>
  if (score > 0) { allCandidates.push({ event, score }); }
  if (score > bestScore) { bestScore = score; bestMatch = event; }
  \<close>
\<close>

fun events_loop ::
  "unicode \<Rightarrow> pick \<Rightarrow> event list \<Rightarrow> event option \<times> double \<times> candidate list \<Rightarrow>
   event option \<times> double \<times> candidate list" where
  "events_loop U p [] (bestMatch, bestScore, allCandidates) = (bestMatch, bestScore, allCandidates)"
| "events_loop U p (ev # rest) (bestMatch, bestScore, allCandidates) =
     (let score = event_score U p ev;
          allCandidates' =
            (if 0 < score then allCandidates @ [\<lparr> candidate.event = ev, score = score \<rparr>]
             else allCandidates)
      in if bestScore < score then events_loop U p rest (Some ev, score, allCandidates')
         else events_loop U p rest (bestMatch, bestScore, allCandidates'))"

text \<open>
  \<^verbatim>\<open>Array.prototype.sort(compare)\<close> is a built-in of the host. ECMAScript (2019 and later)
  requires it to be stable; it is an insertion sort here, which puts an element before
  the first one that does not have to come before it: \<open>x\<close> stays before \<open>y\<close> unless
  \<^verbatim>\<open>compare(x, y) > 0\<close>.
\<close>

fun sort_insert :: "('a \<Rightarrow> 'a \<Rightarrow> double) \<Rightarrow> 'a \<Rightarrow> 'a list \<Rightarrow> 'a list" where
  "sort_insert compare x [] = [x]"
| "sort_insert compare x (y # ys) =
     (if compare x y \<le> 0 then x # y # ys else y # sort_insert compare x ys)"

definition array_sort :: "('a \<Rightarrow> 'a \<Rightarrow> double) \<Rightarrow> 'a list \<Rightarrow> 'a list" where
  "array_sort compare xs = foldr (sort_insert compare) xs []"

text \<open>What \<^verbatim>\<open>findMatchingEventSimple\<close> returns when it does not return \<^verbatim>\<open>null\<close>.\<close>

record simple_result =
  event :: "event option"
  confidence :: double
  allCandidates :: "candidate list"

text \<open>
  \<^verbatim>\<open>
  export function findMatchingEventSimple(parsedPick, events) {
    const { players, sport, league } = parsedPick;
    if (!players || players.length === 0) { return null; }
    let bestMatch = null; let bestScore = 0; const allCandidates = [];
    for (const event of events) { ... }
    allCandidates.sort((a, b) => b.score - a.score);
    if (bestMatch) {
      return { event: bestMatch, confidence: Math.min(bestScore, 1.0), allCandidates };
    }
    return { event: null, confidence: 0, allCandidates };
  }
  \<close>
\<close>

definition findMatchingEventSimple :: "unicode \<Rightarrow> pick \<Rightarrow> event list \<Rightarrow> simple_result option" where
  "findMatchingEventSimple U p events =
     (if players p = [] then None
      else
        (case events_loop U p events (None, 0, []) of
           (bestMatch, bestScore, pushed) \<Rightarrow>
             (let ranked = array_sort (\<lambda>a b. fsub (candidate.score b) (candidate.score a)) pushed
              in case bestMatch of
                   Some ev \<Rightarrow>
                     Some \<lparr> simple_result.event = Some ev, confidence = min bestScore 1,
                            allCandidates = ranked \<rparr>
                 | None \<Rightarrow>
                     Some \<lparr> simple_result.event = None, confidence = 0,
                            allCandidates = ranked \<rparr>)))"


section \<open>The escalation resolver\<close>

text \<open>
  What \<^verbatim>\<open>findMatchingEventLLM\<close> sends: the key, the pick and the summaries of the first
  fifty events, each with its index.
  \<^verbatim>\<open>
  const eventSummaries = events.slice(0, 50).map((event, index) => ({
    index, sport: event.sport, league: event.league,
    description: event.description || event.displayName,
    participant1: event.participant1, participant2: event.participant2,
    startTime: event.startTime,
  }));
  \<close>
\<close>

record event_summary =
  index :: nat
  sport :: "jstring option"
  league :: "jstring option"
  description :: "jstring option"
  participant1 :: "jstring option"
  participant2 :: "jstring option"
  startTime :: "jstring option"

definition summary :: "nat \<times> event \<Rightarrow> event_summary" where
  "summary ie =
     (case ie of (i, ev) \<Rightarrow>
        \<lparr> index = i, sport = event.sport ev, league = event.league ev,
          description = (if truthy (event.description ev) then event.description ev
                         else displayName ev),
          participant1 = event.participant1 ev, participant2 = event.participant2 ev,
          startTime = event.startTime ev \<rparr>)"

definition eventSummaries :: "event list \<Rightarrow> event_summary list" where
  "eventSummaries events = map summary (enumerate 0 (take 50 events))"

record llm_request =
  apiKey :: "jstring option"
  parsedPick :: pick
  summaries :: "event_summary list"

text \<open>
  The resolver is a remote service, and what it answers is data of the model. The call
  \<^verbatim>\<open>client.messages.create\<close> throws (\<open>Rejected\<close>) or gives a message with a list of content
  blocks; a block is text or of another type; \<^verbatim>\<open>JSON.parse\<close> of the text throws
  (\<open>Malformed\<close>) or gives a JSON value, of any kind: the prompt asks for an object whose
  \<^verbatim>\<open>matchIndex\<close> is \<^verbatim>\<open>null\<close> or a number, but the code checks neither. A number of a JSON
  text is the double nearest to it, or an infinity when the text is beyond the doubles
  (\<open>JInfinity\<close>, of either sign). The members of an object are in the order of the text;
  of two members with the same name \<^verbatim>\<open>JSON.parse\<close> keeps the later one.

  The client is constructed before the \<^verbatim>\<open>try\<close> block (\<^verbatim>\<open>new Anthropic({ apiKey })\<close>, code
  of a library); with a key that is a string it returns.
\<close>

datatype json =
    JNull
  | JBool bool
  | JNumber real
  | JInfinity
  | JString jstring
  | JArray "json list"
  | JObject "(jstring \<times> json) list"

datatype parsed = Malformed | Parsed json

datatype content_block = TextBlock parsed | OtherBlock

datatype api_response = Rejected | Message "content_block list"

datatype exception = APIError | TypeError | SyntaxError

text \<open>
  \<^verbatim>\<open>result.matchIndex\<close>: reading a property of \<^verbatim>\<open>null\<close> throws a TypeError; an object has
  the property if the text had a field of that name; a boolean, a number, a string and an
  array have no property \<^verbatim>\<open>matchIndex\<close>, and the value is \<^verbatim>\<open>undefined\<close> (\<open>None\<close>).
\<close>

definition get_property :: "json \<Rightarrow> jstring \<Rightarrow> exception + json option" where
  "get_property v name =
     (case v of
        JNull \<Rightarrow> Inl TypeError
      | JObject members \<Rightarrow> Inr (map_of (rev members) name)
      | _ \<Rightarrow> Inr None)"

text \<open>\<^verbatim>\<open>events[i]\<close> for a number \<^verbatim>\<open>i\<close>: \<^verbatim>\<open>undefined\<close> unless \<^verbatim>\<open>i\<close> is an index of the array.\<close>

definition array_get :: "'a list \<Rightarrow> real \<Rightarrow> 'a option" where
  "array_get xs i =
     (if of_int \<lfloor>i\<rfloor> = i \<and> 0 \<le> i \<and> i < of_nat (length xs) then Some (xs ! nat \<lfloor>i\<rfloor>)
      else None)"

text \<open>
  When \<^verbatim>\<open>matchIndex\<close> is not a number, JavaScript converts it: to a number for the two
  comparisons of the guard, and to a property key for \<^verbatim>\<open>events[result.matchIndex]\<close>. The
  key of a string is the string itself, the key of an array is its elements joined with
  commas (\<^verbatim>\<open>null\<close> as the empty string), the key of a number is its decimal notation. A key
  names an element of an array only if it is a canonical array index: decimal digits,
  with no leading zero unless it is \<^verbatim>\<open>"0"\<close>. So \<^verbatim>\<open>"0"\<close>, \<^verbatim>\<open>[0]\<close>, \<^verbatim>\<open>["0"]\<close> and \<^verbatim>\<open>[[0]]\<close> all
  name element 0, while \<^verbatim>\<open>"00"\<close>, \<^verbatim>\<open>" 0"\<close>, \<^verbatim>\<open>"0.0"\<close>, \<^verbatim>\<open>true\<close> and \<^verbatim>\<open>[0, 1]\<close> name no
  element. \<open>property_index\<close> is the index that a value names, if it names one.
\<close>

definition canonical_index :: "jstring \<Rightarrow> nat option" where
  "canonical_index s =
     (if s \<noteq> [] \<and> list_all (\<lambda>c. 0x30 \<le> c \<and> c \<le> 0x39) s \<and> (hd s \<noteq> 0x30 \<or> length s = 1)
      then Some (foldl (\<lambda>n c. 10 * n + (c - 0x30)) 0 s)
      else None)"

fun property_index :: "json \<Rightarrow> nat option" where
  "property_index (JNumber i) = (if 0 \<le> i \<and> of_int \<lfloor>i\<rfloor> = i then Some (nat \<lfloor>i\<rfloor>) else None)"
| "property_index (JString s) = canonical_index s"
| "property_index (JArray [v]) = property_index v"
| "property_index v = None"

text \<open>
  The conversion itself throws a TypeError for an object that has a field \<^verbatim>\<open>toString\<close>
  (the field hides \<^verbatim>\<open>Object.prototype.toString\<close> and is not a function, and \<^verbatim>\<open>valueOf\<close>
  gives no primitive value), and for an array that holds such an object.
\<close>

fun conversion_throws :: "json \<Rightarrow> bool" where
  "conversion_throws (JObject members) = (ascii ''toString'' \<in> fst ` set members)"
| "conversion_throws (JArray vs) = list_ex conversion_throws vs"
| "conversion_throws v = False"

text \<open>
  The guard and the read, for a value of \<^verbatim>\<open>result.matchIndex\<close>:
  \<^verbatim>\<open>
  if (result.matchIndex !== null && result.matchIndex >= 0 &&
      result.matchIndex < events.length) {
    return events[result.matchIndex];
  }
  return null;
  \<close>
  \<^verbatim>\<open>undefined\<close> converts to NaN, and every comparison with NaN is false. For a number the
  guard and the read are as written. For another value the read gives an element only
  if the value names an index below the length, and then the guard holds, because the
  value converts to that index as a number; in every other case the guard is false or
  the read gives \<^verbatim>\<open>undefined\<close>, which the caller takes for no event as it does \<^verbatim>\<open>null\<close>. (A
  boolean converts to 0 or 1 and passes the guard, but \<^verbatim>\<open>events[true]\<close> is \<^verbatim>\<open>undefined\<close>;
  an object without \<^verbatim>\<open>toString\<close> converts to NaN. An array has fewer than \<open>2 ^ 32\<close>
  elements, so an index below the length is an array index.)
\<close>

definition guarded_read :: "event list \<Rightarrow> json option \<Rightarrow> exception + event option" where
  "guarded_read events matchIndex =
     (case matchIndex of
        None \<Rightarrow> Inr None
      | Some JNull \<Rightarrow> Inr None
      | Some (JNumber i) \<Rightarrow>
          if 0 \<le> i \<and> i < of_nat (length events) then Inr (array_get events i) else Inr None
      | Some v \<Rightarrow>
          if conversion_throws v then Inl TypeError
          else (case property_index v of
                  Some n \<Rightarrow> if n < length events then Inr (Some (events ! n)) else Inr None
                | None \<Rightarrow> Inr None))"

text \<open>
  The body of the \<^verbatim>\<open>try\<close> block, once the call has answered. Reading a property of
  \<^verbatim>\<open>undefined\<close> (no content block) throws a TypeError.
  \<^verbatim>\<open>
  const content = response.content[0];
  if (content.type !== 'text') { return null; }
  const result = JSON.parse(content.text.trim());
  if (result.matchIndex !== null && ...) { return events[result.matchIndex]; }
  return null;
  \<close>
\<close>

definition try_block :: "event list \<Rightarrow> api_response \<Rightarrow> exception + event option" where
  "try_block events response =
     (case response of
        Rejected \<Rightarrow> Inl APIError
      | Message [] \<Rightarrow> Inl TypeError
      | Message (OtherBlock # _) \<Rightarrow> Inr None
      | Message (TextBlock Malformed # _) \<Rightarrow> Inl SyntaxError
      | Message (TextBlock (Parsed result) # _) \<Rightarrow>
          (case get_property result (ascii ''matchIndex'') of
             Inl error \<Rightarrow> Inl error
           | Inr matchIndex \<Rightarrow> guarded_read events matchIndex))"

text \<open>
  \<^verbatim>\<open>findMatchingEventLLM\<close>: one request, and \<^verbatim>\<open>catch (error) { return null; }\<close> around the
  block. The second component is the list of the requests made, so that a theorem can
  say whether the resolver was invoked.
\<close>

definition findMatchingEventLLM ::
  "(llm_request \<Rightarrow> api_response) \<Rightarrow> pick \<Rightarrow> event list \<Rightarrow> jstring option \<Rightarrow>
   event option \<times> llm_request list" where
  "findMatchingEventLLM llm p events key =
     (let request = \<lparr> apiKey = key, parsedPick = p, summaries = eventSummaries events \<rparr>
      in (case try_block events (llm request) of
            Inl error \<Rightarrow> None
          | Inr found \<Rightarrow> found,
          [request]))"


section \<open>The resolution policy\<close>

text \<open>What \<^verbatim>\<open>findMatchingEventWithDebug\<close> returns.\<close>

record match_result =
  event :: "event option"
  confidence :: double
  candidates :: "candidate list"

text \<open>
  \<^verbatim>\<open>
  export async function findMatchingEventWithDebug(parsedPick, events, apiKey) {
    if (!events || events.length === 0) {
      return { event: null, confidence: 0, candidates: [] };
    }
    const simpleResult = findMatchingEventSimple(parsedPick, events);
    const candidates = simpleResult?.allCandidates || [];
    if (simpleResult && simpleResult.confidence >= 0.5) {
      if (simpleResult.confidence >= 0.7 || !apiKey) {
        return { event: simpleResult.event, confidence: simpleResult.confidence, candidates };
      }
    }
    if (apiKey) {
      const llmMatch = await findMatchingEventLLM(parsedPick, events, apiKey);
      if (llmMatch) {
        return { event: llmMatch, confidence: 0.9, candidates };
      }
    }
    if (simpleResult && simpleResult.confidence >= 0.3) {
      return { event: simpleResult.event, confidence: simpleResult.confidence, candidates };
    }
    return { event: null, confidence: 0, candidates };
  }
  \<close>
  The three tests of \<^verbatim>\<open>simpleResult\<close> and the \<^verbatim>\<open>return\<close> of the lexical result are
  \<open>at_least\<close> and \<open>lexical\<close>.
\<close>

definition at_least :: "simple_result option \<Rightarrow> double \<Rightarrow> bool" where
  "at_least simpleResult threshold =
     (case simpleResult of None \<Rightarrow> False | Some r \<Rightarrow> threshold \<le> simple_result.confidence r)"

definition candidates_of :: "simple_result option \<Rightarrow> candidate list" where
  "candidates_of simpleResult = (case simpleResult of None \<Rightarrow> [] | Some r \<Rightarrow> allCandidates r)"

definition lexical :: "simple_result option \<Rightarrow> match_result" where
  "lexical simpleResult =
     \<lparr> match_result.event = (case simpleResult of None \<Rightarrow> None | Some r \<Rightarrow> simple_result.event r),
       confidence = (case simpleResult of None \<Rightarrow> 0 | Some r \<Rightarrow> simple_result.confidence r),
       candidates = candidates_of simpleResult \<rparr>"

definition findMatchingEventWithDebug ::
  "unicode \<Rightarrow> (llm_request \<Rightarrow> api_response) \<Rightarrow> pick \<Rightarrow> event list \<Rightarrow> jstring option \<Rightarrow>
   match_result \<times> llm_request list" where
  "findMatchingEventWithDebug U llm p events key =
     (if events = [] then
        (\<lparr> match_result.event = None, confidence = 0, candidates = [] \<rparr>, [])
      else
        (let simpleResult = findMatchingEventSimple U p events in
         if at_least simpleResult lit05 \<and> (at_least simpleResult lit07 \<or> \<not> truthy key) then
           (lexical simpleResult, [])
         else
           (case (if truthy key then findMatchingEventLLM llm p events key else (None, [])) of
              (Some llmMatch, requests) \<Rightarrow>
                (\<lparr> match_result.event = Some llmMatch, confidence = lit09,
                   candidates = candidates_of simpleResult \<rparr>, requests)
            | (None, requests) \<Rightarrow>
                if at_least simpleResult lit03 then (lexical simpleResult, requests)
                else (\<lparr> match_result.event = None, confidence = 0,
                        candidates = candidates_of simpleResult \<rparr>, requests))))"

text \<open>
  \<^verbatim>\<open>
  export async function findMatchingEvent(parsedPick, events, apiKey) {
    const result = await findMatchingEventWithDebug(parsedPick, events, apiKey);
    return result?.event || null;
  }
  \<close>
\<close>

definition findMatchingEvent ::
  "unicode \<Rightarrow> (llm_request \<Rightarrow> api_response) \<Rightarrow> pick \<Rightarrow> event list \<Rightarrow> jstring option \<Rightarrow>
   event option" where
  "findMatchingEvent U llm p events key =
     match_result.event (fst (findMatchingEventWithDebug U llm p events key))"


section \<open>The specification's words\<close>

text \<open>
  Normalization as the specification states it: lowercase; decompose accented characters
  and strip the accent marks; strip all characters that are not lowercase letters, digits
  or white space; collapse runs of white space to a single space; trim the white space at
  both ends. The last two steps leave the words of the string, separated by single
  spaces: \<open>runs sep s\<close> is the list of the maximal runs of code units of \<open>s\<close> that are no
  separators.
\<close>

function runs :: "(nat \<Rightarrow> bool) \<Rightarrow> jstring \<Rightarrow> jstring list" where
  "runs sep s =
     (case dropWhile sep s of
        [] \<Rightarrow> []
      | c # cs \<Rightarrow> takeWhile (\<lambda>d. \<not> sep d) (c # cs) # runs sep (dropWhile (\<lambda>d. \<not> sep d) cs))"
  by pat_completeness auto
termination
proof (relation "measure (\<lambda>(sep, s). length s)")
  show "wf (measure (\<lambda>(sep :: nat \<Rightarrow> bool, s :: jstring). length s))" by simp
next
  fix sep :: "nat \<Rightarrow> bool" and s :: jstring and c cs
  assume "dropWhile sep s = c # cs"
  then have "length (c # cs) \<le> length s" by (metis length_dropWhile_le)
  moreover have "length (dropWhile (\<lambda>d. \<not> sep d) cs) \<le> length cs" by (rule length_dropWhile_le)
  ultimately show "((sep, dropWhile (\<lambda>d. \<not> sep d) cs), (sep, s)) \<in> measure (\<lambda>(sep, s). length s)"
    by simp
qed

declare runs.simps [simp del]

fun join_spaces :: "jstring list \<Rightarrow> jstring" where
  "join_spaces [] = []"
| "join_spaces [t] = t"
| "join_spaces (t # u # ts) = t @ 0x20 # join_spaces (u # ts)"

definition spec_normalize :: "unicode \<Rightarrow> jstring \<Rightarrow> jstring" where
  "spec_normalize U name =
     join_spaces (runs is_space
       (filter (\<lambda>c. is_az09 c \<or> is_space c)
          (filter (\<lambda>c. \<not> is_mark c) (normalizeNFD U (toLowerCase U name)))))"

text \<open>
  The scoring procedure as the specification states it, to be compared with the loops
  above. "Is a substring of" is \<open>sublist\<close>, a contiguous occurrence. The
  whitespace-delimited tokens of a normalized string, whose white space is single spaces,
  are its runs between spaces.
\<close>

definition tokens :: "jstring \<Rightarrow> jstring list" where
  "tokens s = runs (\<lambda>c. c = 0x20) s"

text \<open>
  A rule fires for a player and a participant (both normalized); the rules are tried in
  the order exact equality, player in participant, participant in player, token match,
  and the first that fires gives the bonus.
\<close>

definition rule_bonus :: "jstring \<Rightarrow> jstring \<Rightarrow> double option" where
  "rule_bonus player participant =
     (if participant = player then Some lit07
      else if 3 \<le> length player \<and> sublist player participant then Some lit06
      else if 3 \<le> length participant \<and> sublist participant player then Some lit05
      else if \<exists>t \<in> set (tokens player). 2 < length t \<and>
                (\<exists>pt \<in> set (tokens participant). pt = t \<or> sublist t pt)
        then Some lit04
      else None)"

text \<open>
  The bonus of a player against the pool: that of the first participant of the pool for
  which a rule fires, and 0 when none does.
\<close>

definition player_bonus :: "jstring list \<Rightarrow> jstring \<Rightarrow> double" where
  "player_bonus pool player =
     (case List.map_filter (rule_bonus player) pool of [] \<Rightarrow> 0 | b # _ \<Rightarrow> b)"

text \<open>
  The pool: the values of the four fields that are present and not empty, each
  normalized.
\<close>

definition spec_pool :: "unicode \<Rightarrow> event \<Rightarrow> jstring list" where
  "spec_pool U ev =
     map (spec_normalize U)
       (filter (\<lambda>s. s \<noteq> [])
          (List.map_filter id [event.participant1 ev, event.participant2 ev, event.description ev, displayName ev]))"

text \<open>
  "Case-insensitively equals" and "is a case-insensitive substring of", on optional
  strings: a field that is not set equals nothing and contains nothing.
\<close>

definition ci_equal :: "unicode \<Rightarrow> jstring option \<Rightarrow> jstring option \<Rightarrow> bool" where
  "ci_equal U a b = (truthy a \<and> truthy b \<and> map_option (toLowerCase U) a = map_option (toLowerCase U) b)"

definition ci_substring :: "unicode \<Rightarrow> jstring option \<Rightarrow> jstring option \<Rightarrow> bool" where
  "ci_substring U a b =
     (case (a, b) of
        (Some x, Some y) \<Rightarrow> x \<noteq> [] \<and> y \<noteq> [] \<and> sublist (toLowerCase U x) (toLowerCase U y)
      | _ \<Rightarrow> False)"

text \<open>
  The bonuses of a pick against an event, in the order sport, league, players; and their
  sum as JavaScript takes it: from 0, one bonus after the other, every addition rounded
  to the nearest double.
\<close>

definition bonuses :: "unicode \<Rightarrow> pick \<Rightarrow> event \<Rightarrow> double list" where
  "bonuses U p ev =
     (if truthy (pick.sport p) \<and> ci_equal U (pick.sport p) (event.sport ev) then lit02 else 0) #
     (if truthy (pick.league p) \<and> ci_substring U (pick.league p) (event.league ev) then lit01 else 0) #
     map (\<lambda>name. player_bonus (spec_pool U ev) (spec_normalize U name)) (players p)"

definition spec_score :: "unicode \<Rightarrow> pick \<Rightarrow> event \<Rightarrow> double" where
  "spec_score U p ev = foldl fadd 0 (bonuses U p ev)"

text \<open>
  The highest score of an event list (0 when no event scores above 0), and the candidates
  in the order of the input: one for every event that scores above 0.
\<close>

definition top_score :: "unicode \<Rightarrow> pick \<Rightarrow> event list \<Rightarrow> double" where
  "top_score U p events = Max (insert 0 (set (map (event_score U p) events)))"

definition pushed :: "unicode \<Rightarrow> pick \<Rightarrow> event list \<Rightarrow> candidate list" where
  "pushed U p events =
     map (\<lambda>e. \<lparr> candidate.event = e, score = event_score U p e \<rparr>)
       (filter (\<lambda>e. 0 < event_score U p e) events)"








fun matchIndex_of :: "api_response \<Rightarrow> json option" where
  "matchIndex_of (Message (TextBlock (Parsed (JObject members)) # rest)) =
     map_of (rev members) (ascii ''matchIndex'')"
| "matchIndex_of response = None"


section \<open>Examples\<close>


definition galan_capitals :: jstring where
  "galan_capitals = [0x47, 0x41, 0x4C, 0xC1, 0x4E]"


definition galan_event :: event where
  "galan_event = \<lparr> event.sport = Some (ascii ''tennis''), league = Some (ascii ''ATP Buenos Aires''),
     participant1 = Some (ascii ''Daniel Elahi Galan''), participant2 = Some (ascii ''Lautaro Midon''),
     description = None, displayName = None, startTime = None \<rparr>"

definition doubles_event :: event where
  "doubles_event = \<lparr> event.sport = Some (ascii ''tennis''), league = Some (ascii ''Davis Cup''),
     participant1 = None, participant2 = None,
     description = Some (ascii ''Escobar/Hidalgo vs Hijikata/Thompson''), displayName = None,
     startTime = None \<rparr>"

definition rematch_event :: event where
  "rematch_event = \<lparr> event.sport = Some (ascii ''tennis''), league = Some (ascii ''ATP Santiago''),
     participant1 = Some (ascii ''Daniel Elahi Galan''), participant2 = Some (ascii ''Tomas Barrios Vera''),
     description = None, displayName = None, startTime = None \<rparr>"

definition bare_event :: event where
  "bare_event = \<lparr> event.sport = None, league = None,
     participant1 = Some (ascii ''Daniel Galan''), participant2 = None,
     description = None, displayName = None, startTime = None \<rparr>"

definition galan_pick :: pick where
  "galan_pick = \<lparr> players = [ascii ''Galan''], sport = Some (ascii ''tennis''), league = None \<rparr>"


definition daniel_pick :: pick where
  "daniel_pick = \<lparr> players = [ascii ''Daniel Galan''], sport = Some (ascii ''TENNIS''),
     league = Some (ascii ''atp'') \<rparr>"

definition pair_pick :: pick where
  "pair_pick = \<lparr> players = [galan_capitals, ascii ''Midon, L.''], sport = Some (ascii ''TENNIS''),
     league = Some (ascii ''atp'') \<rparr>"

definition federer_pick :: pick where
  "federer_pick = \<lparr> players = [ascii ''Federer''], sport = None, league = None \<rparr>"

definition no_players_pick :: pick where
  "no_players_pick = \<lparr> players = [], sport = Some (ascii ''tennis''), league = None \<rparr>"

text \<open>
  A key, and resolvers: one that answers with an object of the three fields of the
  prompt, one whose call throws, one whose text is not JSON.
\<close>

definition api_key :: "jstring option" where
  "api_key = Some (ascii ''key'')"

definition selecting :: "json \<Rightarrow> real \<Rightarrow> llm_request \<Rightarrow> api_response" where
  "selecting i c request =
     Message [TextBlock (Parsed (JObject
       [(ascii ''matchIndex'', i), (ascii ''confidence'', JNumber c),
        (ascii ''reasoning'', JString [])]))]"

definition failing :: "llm_request \<Rightarrow> api_response" where
  "failing request = Rejected"


text \<open>Fifty-one events: one more than \<^verbatim>\<open>findMatchingEventLLM\<close> sends to the resolver.\<close>

definition fifty_one_events :: "event list" where
  "fifty_one_events = replicate 50 doubles_event @ [galan_event]"

section \<open>Normalization\<close>

text \<open>
  What is left after the two replacements is small letters, digits and white space.
  Collapsing leaves single spaces only, trimming keeps that and removes the spaces at the
  ends; a string of this form is a fixed point of each of the six steps.
\<close>

lemma collapse_no_lead: "cs = [] \<or> \<not> is_space (hd cs) \<Longrightarrow> collapse cs = [] \<or> \<not> is_space (hd (collapse cs))"
  by (cases cs) auto

lemma dropWhile_no_lead: "dropWhile P cs = [] \<or> \<not> P (hd (dropWhile P cs))"
  by (metis hd_dropWhile)

lemma single_spaced_collapse: "single_spaced (collapse s)"
proof (induction s rule: collapse.induct)
  case 1
  show ?case by simp
next
  case (2 c cs)
  show ?case
  proof (cases "is_space c")
    case True
    have "collapse (dropWhile is_space cs) = [] \<or> \<not> is_space (hd (collapse (dropWhile is_space cs)))"
      by (rule collapse_no_lead) (rule dropWhile_no_lead)
    with True 2 show ?thesis by (auto split: list.splits)
  next
    case False
    with 2 show ?thesis by simp
  qed
qed


lemma single_spaced_dropWhile: "single_spaced s \<Longrightarrow> single_spaced (dropWhile P s)"
  by (induction s) (auto split: if_splits)

lemma single_spaced_prefix: "single_spaced (xs @ ys) \<Longrightarrow> single_spaced xs"
proof (induction xs)
  case Nil
  show ?case by simp
next
  case (Cons x xs)
  from Cons.prems have tl: "single_spaced (xs @ ys)" by (simp split: if_splits)
  then have ss: "single_spaced xs" by (rule Cons.IH)
  show ?case
  proof (cases "is_space x")
    case True
    with Cons.prems have "x = 0x20" and nx: "case xs @ ys of [] \<Rightarrow> True | d # _ \<Rightarrow> \<not> is_space d"
      by simp_all
    moreover from nx have "case xs of [] \<Rightarrow> True | d # _ \<Rightarrow> \<not> is_space d"
      by (cases xs) simp_all
    ultimately show ?thesis using True ss by simp
  next
    case False
    with ss show ?thesis by simp
  qed
qed

lemma trimEnd_prefix: "\<exists>ys. s = trimEnd s @ ys"
proof -
  have "rev s = takeWhile is_space (rev s) @ dropWhile is_space (rev s)" by simp
  then have "s = rev (dropWhile is_space (rev s)) @ rev (takeWhile is_space (rev s))"
    by (metis rev_append rev_rev_ident)
  then show ?thesis unfolding trimEnd_def by blast
qed

lemma single_spaced_trim: "single_spaced s \<Longrightarrow> single_spaced (trim s)"
  unfolding trim_def
  by (metis single_spaced_dropWhile single_spaced_prefix trimEnd_prefix)

lemma trimEnd_no_trail: "trimEnd s = [] \<or> \<not> is_space (last (trimEnd s))"
  unfolding trimEnd_def by (metis hd_dropWhile last_rev rev_is_Nil_conv)


lemma dropWhile_last: "dropWhile P s \<noteq> [] \<Longrightarrow> last (dropWhile P s) = last s"
  by (induction s) (auto split: if_splits)










lemmas host_defs = normalizePlayerName_def latin1_def lower_unit_def decompose_unit_def latin1_capitals_def
  is_mark_def is_az09_def is_space_def trim_def trimEnd_def ascii_def

text \<open>
  The words of a string, and the code's two steps \<^verbatim>\<open>.replace(/\s+/g, ' ').trim()\<close>: the
  steps keep the words, and a string with single spaces and none at its ends is its words
  joined by spaces.
\<close>

lemma runs_Nil: "runs sep [] = []"
  by (simp add: runs.simps[of sep "[]"])

lemma runs_sep_Cons: "sep c \<Longrightarrow> runs sep (c # s) = runs sep s"
  by (simp add: runs.simps[of sep "c # s"] runs.simps[of sep s])

lemma runs_Cons:
  "\<not> sep c \<Longrightarrow>
   runs sep (c # cs) = takeWhile (\<lambda>d. \<not> sep d) (c # cs) # runs sep (dropWhile (\<lambda>d. \<not> sep d) cs)"
  by (simp add: runs.simps[of sep "c # cs"])

lemma runs_dropWhile: "runs sep (dropWhile sep s) = runs sep s"
  by (induction s) (simp_all add: runs_sep_Cons)

lemma runs_spaces: "\<forall>c \<in> set t. sep c \<Longrightarrow> runs sep t = []"
  by (induction t) (simp_all add: runs_Nil runs_sep_Cons)

lemma runs_append_spaces:
  assumes "\<forall>c \<in> set t. sep c"
  shows "runs sep (y @ t) = runs sep y"
proof (induction y rule: length_induct)
  case (1 y)
  show ?case
  proof (cases y)
    case Nil
    with assms show ?thesis by (simp add: runs_spaces runs_Nil)
  next
    case (Cons c cs)
    show ?thesis
    proof (cases "sep c")
      case True
      with 1 Cons show ?thesis by (simp add: runs_sep_Cons)
    next
      case False
      let ?ns = "\<lambda>d. \<not> sep d"
      have tk: "takeWhile ?ns (cs @ t) = takeWhile ?ns cs"
      proof (cases "\<forall>d \<in> set cs. ?ns d")
        case True
        then have a: "takeWhile ?ns cs = cs" by (simp add: takeWhile_eq_all_conv)
        have b: "takeWhile ?ns t = []" using assms by (cases t) simp_all
        from True have "takeWhile ?ns (cs @ t) = cs @ takeWhile ?ns t" by (simp add: takeWhile_append2)
        then show ?thesis by (simp only: a b append_Nil2)
      next
        case False
        then show ?thesis by (auto simp: takeWhile_append1)
      qed
      have dr: "dropWhile ?ns (cs @ t) = dropWhile ?ns cs @ t"
      proof (cases "\<forall>d \<in> set cs. ?ns d")
        case True
        then have a: "dropWhile ?ns cs = []" by simp
        have b: "dropWhile ?ns t = t" using assms by (cases t) simp_all
        from True have "dropWhile ?ns (cs @ t) = dropWhile ?ns t" by (simp add: dropWhile_append2)
        then show ?thesis by (simp only: a b append_Nil)
      next
        case False
        then show ?thesis by (auto simp: dropWhile_append1)
      qed
      have "length (dropWhile ?ns cs) < length y"
        using length_dropWhile_le[of ?ns cs] Cons by simp
      with 1 have "runs sep (dropWhile ?ns cs @ t) = runs sep (dropWhile ?ns cs)" by simp
      with False Cons tk dr show ?thesis by (simp add: runs_Cons)
    qed
  qed
qed

lemma takeWhile_collapse:
  "takeWhile (\<lambda>d. \<not> is_space d) (collapse s) = takeWhile (\<lambda>d. \<not> is_space d) s"
proof (induction s rule: collapse.induct)
  case 1
  show ?case by simp
next
  case (2 c cs)
  have "is_space 0x20" by (simp add: is_space_def)
  with 2 show ?case by simp
qed

lemma dropWhile_collapse:
  "dropWhile (\<lambda>d. \<not> is_space d) (collapse s) = collapse (dropWhile (\<lambda>d. \<not> is_space d) s)"
proof (induction s rule: collapse.induct)
  case 1
  show ?case by simp
next
  case (2 c cs)
  have "is_space 0x20" by (simp add: is_space_def)
  with 2 show ?case by simp
qed

lemma runs_collapse: "runs is_space (collapse s) = runs is_space s"
proof (induction s rule: length_induct)
  case (1 s)
  have sp: "is_space 0x20" by (simp add: is_space_def)
  show ?case
  proof (cases s)
    case Nil
    then show ?thesis by simp
  next
    case (Cons c cs)
    show ?thesis
    proof (cases "is_space c")
      case True
      have "length (dropWhile is_space cs) < length s"
        using length_dropWhile_le[of is_space cs] Cons by simp
      with 1 have "runs is_space (collapse (dropWhile is_space cs)) = runs is_space (dropWhile is_space cs)"
        by simp
      with True Cons sp show ?thesis by (simp add: runs_sep_Cons runs_dropWhile)
    next
      case False
      let ?ns = "\<lambda>d. \<not> is_space d"
      have "length (dropWhile ?ns cs) < length s"
        using length_dropWhile_le[of ?ns cs] Cons by simp
      with 1 have "runs is_space (collapse (dropWhile ?ns cs)) = runs is_space (dropWhile ?ns cs)"
        by simp
      with False Cons show ?thesis
        by (simp add: runs_Cons takeWhile_collapse dropWhile_collapse)
    qed
  qed
qed

lemma trimEnd_spaces:
  "\<exists>t. s = trimEnd s @ t \<and> (\<forall>c \<in> set t. is_space c)"
proof -
  have "rev s = takeWhile is_space (rev s) @ dropWhile is_space (rev s)" by simp
  then have "s = rev (dropWhile is_space (rev s)) @ rev (takeWhile is_space (rev s))"
    by (metis rev_append rev_rev_ident)
  moreover have "\<forall>c \<in> set (rev (takeWhile is_space (rev s))). is_space c"
    by (auto dest: set_takeWhileD)
  ultimately show ?thesis unfolding trimEnd_def by blast
qed

lemma runs_trim: "runs is_space (trim s) = runs is_space s"
proof -
  from trimEnd_spaces[of s] obtain t where t: "s = trimEnd s @ t" "\<forall>c \<in> set t. is_space c"
    by blast
  have "runs is_space (trim s) = runs is_space (trimEnd s)"
    by (simp add: trim_def runs_dropWhile)
  also have "\<dots> = runs is_space (trimEnd s @ t)" using t(2) by (simp add: runs_append_spaces)
  also have "\<dots> = runs is_space s" using t(1) by simp
  finally show ?thesis .
qed

lemma trim_no_trail: "trim s = [] \<or> \<not> is_space (last (trim s))"
proof (cases "trim s = []")
  case True
  then show ?thesis by simp
next
  case False
  then have ne: "dropWhile is_space (trimEnd s) \<noteq> []" by (simp add: trim_def)
  then have "trimEnd s \<noteq> []" by auto
  with trimEnd_no_trail[of s] have "\<not> is_space (last (trimEnd s))" by simp
  with dropWhile_last[OF ne] show ?thesis by (simp add: trim_def)
qed

lemma join_runs:
  assumes "single_spaced y" and "y = [] \<or> \<not> is_space (hd y)" and "y = [] \<or> \<not> is_space (last y)"
  shows "join_spaces (runs is_space y) = y"
  using assms
proof (induction y rule: length_induct)
  case (1 y)
  let ?ns = "\<lambda>d. \<not> is_space d"
  show ?case
  proof (cases y)
    case Nil
    then show ?thesis by (simp add: runs_Nil)
  next
    case (Cons c cs)
    with "1.prems"(2) have c: "\<not> is_space c" by simp
    let ?w = "takeWhile ?ns y"
    let ?r = "dropWhile ?ns cs"
    have y: "y = ?w @ ?r" using c Cons by simp
    have rn: "runs is_space y = ?w # runs is_space ?r" using c Cons by (simp add: runs_Cons)
    show ?thesis
    proof (cases ?r)
      case Nil
      with y rn show ?thesis by (simp add: runs_Nil)
    next
      case r: (Cons d r')
      have d: "is_space d" using hd_dropWhile[of ?ns cs] r by auto
      have ssr: "single_spaced (d # r')"
      proof -
        from "1.prems"(1) Cons c have "single_spaced cs" by simp
        then have "single_spaced ?r" by (rule single_spaced_dropWhile)
        with r show ?thesis by simp
      qed
      with d have d20: "d = 0x20" and nx: "case r' of [] \<Rightarrow> True | e # _ \<Rightarrow> \<not> is_space e"
        and ss': "single_spaced r'"
        by simp_all
      have lasty: "last y = last (d # r')" using y r by (metis last_appendR list.distinct(1))
      have r'ne: "r' \<noteq> []"
      proof
        assume "r' = []"
        with lasty d have "is_space (last y)" by simp
        with "1.prems"(3) Cons show False by simp
      qed
      then obtain e r'' where r': "r' = e # r''" by (cases r') auto
      with nx have e: "\<not> is_space e" by simp
      have len: "length r' < length y"
      proof -
        have "length ?r \<le> length cs" by (rule length_dropWhile_le)
        with r Cons show ?thesis by simp
      qed
      have last': "\<not> is_space (last r')"
        using lasty r'ne "1.prems"(3) Cons by simp
      from 1(1) len ss' e r' last' have ih: "join_spaces (runs is_space r') = r'" by simp
      have ne: "runs is_space r' \<noteq> []" using e r' by (simp add: runs_Cons)
      then obtain u us where u: "runs is_space r' = u # us" by (cases "runs is_space r'") auto
      have "runs is_space ?r = runs is_space r'" using r d by (simp add: runs_sep_Cons)
      with rn u have "join_spaces (runs is_space y) = ?w @ 0x20 # join_spaces (runs is_space r')"
        by simp
      also have "\<dots> = ?w @ d # r'" using ih d20 by simp
      also have "\<dots> = y" using y r by simp
      finally show ?thesis .
    qed
  qed
qed

lemma trim_collapse_words: "trim (collapse s) = join_spaces (runs is_space s)"
proof -
  let ?y = "trim (collapse s)"
  have "single_spaced ?y" by (rule single_spaced_trim) (rule single_spaced_collapse)
  moreover have "?y = [] \<or> \<not> is_space (hd ?y)" unfolding trim_def by (rule dropWhile_no_lead)
  moreover have "?y = [] \<or> \<not> is_space (last ?y)" by (rule trim_no_trail)
  ultimately have "join_spaces (runs is_space ?y) = ?y" by (rule join_runs)
  then show ?thesis by (simp add: runs_trim runs_collapse)
qed

lemma normalize_spec: "normalizePlayerName U name = spec_normalize U name"
  by (simp add: normalizePlayerName_def spec_normalize_def trim_collapse_words)












section \<open>Doubles\<close>

text \<open>
  \<open>double_of\<close> evaluates on numerals. Its value is a double, a double is its own nearest
  double, and the sign of a difference of two doubles is that of the exact difference:
  the subnormal numbers are there to make the difference of two distinct doubles
  distinct from 0.
\<close>

lemma powi2_eval: "(2::real) powi e = (if 0 \<le> e then 2 ^ nat e else 1 / 2 ^ nat (- e))"
  by (simp add: power_int_def power_inverse field_simps)

lemmas double_eval = double_of_def exponent_def roundTiesToEven_def fadd_def fsub_def Let_def
  expo_up.simps expo_down.simps powi2_eval


lemma powi2_Suc: "(2::real) powi (e + 1) = 2 * 2 powi e"
  by (simp add: power_int_add)

lemma expo_up_bounds: "1 \<le> a \<Longrightarrow> 2 powi (expo_up a) \<le> a \<and> a < 2 powi (expo_up a + 1)"
proof (induction a rule: expo_up.induct)
  case (1 a)
  show ?case
  proof (cases "2 \<le> a")
    case True
    define k where "k = expo_up (a / 2)"
    from True have "1 \<le> a / 2" by simp
    from "1.IH"[OF True this] have ih: "2 powi k \<le> a / 2" "a / 2 < 2 powi (k + 1)"
      by (simp_all add: k_def)
    have e: "expo_up a = k + 1" using True by (simp add: expo_up.simps[of a] k_def)
    have p: "(2::real) powi (k + 1) = 2 * 2 powi k" "(2::real) powi (k + 1 + 1) = 2 * 2 powi (k + 1)"
      by (rule powi2_Suc)+
    from ih p show ?thesis unfolding e by linarith
  next
    case False
    with "1.prems" show ?thesis by (simp add: expo_up.simps[of a])
  qed
qed

lemma expo_down_bounds:
  "0 < a \<Longrightarrow> a < 1 \<Longrightarrow> 2 powi (expo_down a) \<le> a \<and> a < 2 powi (expo_down a + 1)"
proof (induction a rule: expo_down.induct)
  case (1 a)
  from "1.prems" have c: "0 < a \<and> a < 1" by simp
  define k where "k = expo_down (2 * a)"
  have e: "expo_down a = k - 1" using c by (simp add: expo_down.simps[of a] k_def)
  have p: "(2::real) powi (k - 1 + 1) = 2 * 2 powi (k - 1)" "(2::real) powi (k + 1) = 2 * 2 powi k"
    by (rule powi2_Suc)+
  show ?case
  proof (cases "2 * a < 1")
    case True
    from "1.prems" have "0 < 2 * a" by simp
    from "1.IH"[OF c this True] have ih: "2 powi k \<le> 2 * a" "2 * a < 2 powi (k + 1)"
      by (simp_all add: k_def)
    from ih p show ?thesis unfolding e by simp
  next
    case False
    then have k: "k = 0" by (simp add: expo_down.simps[of "2 * a"] k_def)
    have "(2::real) powi (0 - 1) = 1 / 2" by (simp add: powi2_eval)
    with c False show ?thesis unfolding e k by simp
  qed
qed

lemma exponent_bounds:
  assumes "0 < a"
  shows "2 powi (exponent a) \<le> a" and "a < 2 powi (exponent a + 1)"
  using assms expo_up_bounds[of a] expo_down_bounds[of a]
  by (auto simp: exponent_def not_le)

lemma roundTiesToEven_of_int [simp]: "roundTiesToEven (of_int n) = n"
  by (simp add: roundTiesToEven_def)

lemma roundTiesToEven_ge: "of_int n \<le> x \<Longrightarrow> n \<le> roundTiesToEven x"
proof -
  assume "of_int n \<le> x"
  then have "n \<le> \<lfloor>x\<rfloor>" by (simp add: le_floor_iff)
  then show ?thesis by (simp add: roundTiesToEven_def Let_def)
qed

lemma roundTiesToEven_le: "x \<le> of_int n \<Longrightarrow> roundTiesToEven x \<le> n"
proof -
  assume le: "x \<le> of_int n"
  then have f: "\<lfloor>x\<rfloor> \<le> n" by (metis floor_mono floor_of_int)
  show ?thesis
  proof (cases "\<lfloor>x\<rfloor> = n")
    case True
    with le have "x - of_int \<lfloor>x\<rfloor> \<le> 0" by simp
    then show ?thesis using True by (simp add: roundTiesToEven_def Let_def)
  next
    case False
    with f have "\<lfloor>x\<rfloor> + 1 \<le> n" by simp
    with f show ?thesis by (simp add: roundTiesToEven_def Let_def)
  qed
qed

lemma powi2_pos [simp]: "0 < (2::real) powi e"
  by (simp add: zero_less_power_int)

lemma powi2_mono: "e \<le> e' \<Longrightarrow> (2::real) powi e \<le> 2 powi e'"
  by (rule power_int_increasing) simp_all

lemma powi2_less_cancel: "(2::real) powi e < 2 powi e' \<Longrightarrow> e < e'"
  by (metis not_less powi2_mono)

lemma powi2_add: "(2::real) powi (a + b) = 2 powi a * 2 powi b"
  by (simp add: power_int_add)

lemma powi2_of_nat: "0 \<le> j \<Longrightarrow> (2::real) powi j = of_int (2 ^ nat j)"
  by (simp add: power_int_def)

lemma double_of_nonzero:
  assumes "q \<noteq> 0"
  obtains n e where "double_of q = sgn q * of_int n * 2 powi (e - 52)" "- 1022 \<le> e"
    "exponent \<bar>q\<bar> \<le> e" "0 \<le> n" "n \<le> 2 ^ 53"
    "n = roundTiesToEven (\<bar>q\<bar> / 2 powi (e - 52))" "e = max (exponent \<bar>q\<bar>) (- 1022)"
proof -
  define e where "e = max (exponent \<bar>q\<bar>) (- 1022)"
  define ulp where "ulp = (2::real) powi (e - 52)"
  define n where "n = roundTiesToEven (\<bar>q\<bar> / ulp)"
  have up: "0 < ulp" by (simp add: ulp_def)
  from assms have a: "0 < \<bar>q\<bar>" by simp
  have "0 \<le> \<bar>q\<bar> / ulp" using up by simp
  then have n0: "0 \<le> n" unfolding n_def using roundTiesToEven_ge[of 0 "\<bar>q\<bar> / ulp"] by simp
  have "\<bar>q\<bar> < 2 powi (exponent \<bar>q\<bar> + 1)" by (rule exponent_bounds(2)[OF a])
  also have "\<dots> \<le> 2 powi (e + 1)" by (rule powi2_mono) (simp add: e_def)
  also have "\<dots> = 2 powi 53 * ulp"
    unfolding ulp_def using powi2_add[of 53 "e - 52"] by (simp add: add.commute)
  finally have "\<bar>q\<bar> / ulp < 2 powi 53" using up by (simp add: pos_divide_less_eq)
  then have "\<bar>q\<bar> / ulp \<le> of_int (2 ^ 53)" by (simp add: powi2_eval)
  then have n53: "n \<le> 2 ^ 53" unfolding n_def by (rule roundTiesToEven_le)
  have "double_of q = sgn q * of_int n * 2 powi (e - 52)"
    using assms by (simp add: double_of_def Let_def n_def ulp_def e_def)
  then show ?thesis
    using n0 n53 by (intro that[of n e]) (simp_all add: e_def n_def ulp_def)
qed

lemma representable_0 [simp]: "representable 0"
  unfolding representable_def by (intro exI[of _ 0]) simp

lemma representable_double_of: "representable (double_of q)"
proof (cases "q = 0")
  case True
  then show ?thesis by (simp add: double_of_def)
next
  case False
  then obtain n e where d: "double_of q = sgn q * of_int n * 2 powi (e - 52)"
    and e: "- 1022 \<le> e" and n: "0 \<le> n" "n \<le> 2 ^ 53"
    by (rule double_of_nonzero)
  define s :: int where "s = (if 0 < q then 1 else - 1)"
  have sg: "sgn q = of_int s" using False by (simp add: s_def sgn_if)
  have s1: "\<bar>s\<bar> = 1" by (simp add: s_def)
  show ?thesis
  proof (cases "n = 2 ^ 53")
    case True
    have "(2::real) powi (e - 52 + 1) = 2 * 2 powi (e - 52)" by (rule powi2_Suc)
    then have "double_of q = of_int (s * 2 ^ 52) * 2 powi (e - 52 + 1)"
      by (simp add: d sg True)
    moreover have "\<bar>s * 2 ^ 52\<bar> < (2::int) ^ 53" by (simp add: abs_mult s1)
    moreover have "- 1074 \<le> e - 52 + 1" using e by simp
    ultimately show ?thesis unfolding representable_def by blast
  next
    case False
    with n have "\<bar>s * n\<bar> < 2 ^ 53" by (simp add: abs_mult s1)
    moreover have "double_of q = of_int (s * n) * 2 powi (e - 52)" by (simp add: d sg)
    moreover have "- 1074 \<le> e - 52" using e by simp
    ultimately show ?thesis unfolding representable_def by blast
  qed
qed

lemma double_of_representable:
  assumes "representable x"
  shows "double_of x = x"
proof (cases "x = 0")
  case True
  then show ?thesis by (simp add: double_of_def)
next
  case False
  from assms obtain m k where x: "x = of_int m * 2 powi k" and m: "\<bar>m\<bar> < 2 ^ 53" and k: "- 1074 \<le> k"
    unfolding representable_def by blast
  from False obtain n e where d: "double_of x = sgn x * of_int n * 2 powi (e - 52)"
    and e: "e = max (exponent \<bar>x\<bar>) (- 1022)"
    and n: "n = roundTiesToEven (\<bar>x\<bar> / 2 powi (e - 52))"
    by (rule double_of_nonzero)
  have ax: "\<bar>x\<bar> = of_int \<bar>m\<bar> * 2 powi k" by (simp add: x abs_mult)
  from False have pos: "0 < \<bar>x\<bar>" by simp
  have "2 powi (exponent \<bar>x\<bar>) \<le> \<bar>x\<bar>" by (rule exponent_bounds(1)[OF pos])
  also have "\<dots> < of_int (2 ^ 53) * 2 powi k"
    unfolding ax using m by (intro mult_strict_right_mono) (simp_all only: of_int_less_iff powi2_pos)
  also have "\<dots> = 2 powi (53 + k)"
  proof -
    have "(2::real) powi 53 = of_int (2 ^ 53)" by (simp add: powi2_eval)
    then show ?thesis by (simp only: powi2_add[of 53 k])
  qed
  finally have "exponent \<bar>x\<bar> < 53 + k" by (rule powi2_less_cancel)
  with k have le: "e - 52 \<le> k" by (simp add: e)
  define j where "j = k - (e - 52)"
  from le have j: "0 \<le> j" by (simp add: j_def)
  have split: "(2::real) powi k = 2 powi j * 2 powi (e - 52)"
    using powi2_add[of j "e - 52"] by (simp add: j_def)
  have "\<bar>x\<bar> / 2 powi (e - 52) = of_int \<bar>m\<bar> * 2 powi j"
    by (simp add: ax split)
  also have "\<dots> = of_int (\<bar>m\<bar> * 2 ^ nat j)" by (simp add: powi2_of_nat[OF j])
  finally have "n = \<bar>m\<bar> * 2 ^ nat j" unfolding n by (simp only: roundTiesToEven_of_int)
  then have "of_int n * 2 powi (e - 52) = \<bar>x\<bar>"
    by (simp add: ax split powi2_of_nat[OF j])
  then have "double_of x = sgn x * \<bar>x\<bar>" by (simp add: d mult.assoc)
  then show ?thesis by (simp add: sgn_mult_abs)
qed

lemma fadd_0_right: "representable x \<Longrightarrow> fadd x 0 = x"
  by (simp add: fadd_def double_of_representable)

lemma representable_fadd [simp]: "representable (fadd x y)"
  by (simp add: fadd_def representable_double_of)

lemma representable_grid:
  assumes "representable x"
  shows "\<exists>z::int. x = of_int z * 2 powi (- 1074)"
proof -
  from assms obtain m k where x: "x = of_int m * 2 powi k" and k: "- 1074 \<le> k"
    unfolding representable_def by blast
  from k have j: "0 \<le> k + 1074" by simp
  have "(2::real) powi k = 2 powi (k + 1074) * 2 powi (- 1074)"
    using powi2_add[of "k + 1074" "- 1074"] by simp
  then have "x = of_int (m * 2 ^ nat (k + 1074)) * 2 powi (- 1074)"
    by (simp add: x powi2_of_nat[OF j])
  then show ?thesis by blast
qed

lemma double_of_pos:
  assumes "2 powi (- 1074) \<le> q"
  shows "0 < double_of q"
proof -
  have g: "0 < (2::real) powi (- 1074)" by simp
  with assms have q: "0 < q" by linarith
  then have nz: "q \<noteq> 0" by simp
  then obtain n e where d: "double_of q = sgn q * of_int n * 2 powi (e - 52)"
    and e: "e = max (exponent \<bar>q\<bar>) (- 1022)"
    and n: "n = roundTiesToEven (\<bar>q\<bar> / 2 powi (e - 52))"
    by (rule double_of_nonzero)
  have "2 powi (e - 52) \<le> q"
  proof (cases "- 1022 \<le> exponent \<bar>q\<bar>")
    case True
    then have "e = exponent q" using q by (simp add: e)
    then have "(2::real) powi (e - 52) \<le> 2 powi (exponent q)" by (intro powi2_mono) simp
    also have "\<dots> \<le> q" by (rule exponent_bounds(1)[OF q])
    finally show ?thesis .
  next
    case False
    then have "e = - 1022" by (simp add: e)
    with assms show ?thesis by simp
  qed
  then have "of_int 1 \<le> \<bar>q\<bar> / 2 powi (e - 52)" using q by (simp add: pos_le_divide_eq)
  then have "1 \<le> n" unfolding n by (rule roundTiesToEven_ge)
  then have "0 < of_int n * (2::real) powi (e - 52)" by simp
  with q show ?thesis by (simp add: d)
qed

lemma double_of_nonpos:
  assumes "q \<le> 0"
  shows "double_of q \<le> 0"
proof (cases "q = 0")
  case True
  then show ?thesis by (simp add: double_of_def)
next
  case False
  then obtain n e where d: "double_of q = sgn q * of_int n * 2 powi (e - 52)" and n: "0 \<le> n"
    by (rule double_of_nonzero)
  from False assms have "sgn q = - 1" by simp
  with n show ?thesis by (simp add: d)
qed

lemma fsub_sign:
  assumes "representable a" and "representable b"
  shows "fsub b a \<le> 0 \<longleftrightarrow> b \<le> a"
proof (cases "b \<le> a")
  case True
  then show ?thesis by (simp add: fsub_def double_of_nonpos)
next
  case False
  from representable_grid[OF assms(1)] representable_grid[OF assms(2)]
  obtain za zb :: int where a: "a = of_int za * 2 powi (- 1074)" and b: "b = of_int zb * 2 powi (- 1074)"
    by blast
  have d: "b - a = of_int (zb - za) * 2 powi (- 1074)" by (simp add: a b algebra_simps)
  from False have "0 < b - a" by simp
  then have "0 < zb - za" unfolding d by (simp add: zero_less_mult_iff)
  then have "(1::real) \<le> of_int (zb - za)" by simp
  then have "1 * 2 powi (- 1074) \<le> b - a" unfolding d
    by (intro mult_right_mono) simp_all
  then have "0 < double_of (b - a)" by (intro double_of_pos) simp
  with False show ?thesis by (simp add: fsub_def)
qed


text \<open>The literals as fractions, and their order.\<close>

lemma lit_values:
  "lit01 = 3602879701896397 / 36028797018963968"
  "lit02 = 3602879701896397 / 18014398509481984"
  "lit03 = 5404319552844595 / 18014398509481984"
  "lit04 = 3602879701896397 / 9007199254740992"
  "lit05 = 1 / 2"
  "lit06 = 5404319552844595 / 9007199254740992"
  "lit07 = 3152519739159347 / 4503599627370496"
  "lit09 = 8106479329266893 / 9007199254740992"
  by (simp_all add: lit01_def lit02_def lit03_def lit04_def lit05_def lit06_def lit07_def lit09_def
        double_eval)

lemma representable_lits [simp]:
  "representable lit01" "representable lit02" "representable lit04" "representable lit05"
  "representable lit06" "representable lit07"
  by (simp_all add: lit01_def lit02_def lit04_def lit05_def lit06_def lit07_def
        representable_double_of)

lemma lit_order: "0 < lit03" "lit03 \<le> lit05" "lit05 \<le> lit07" "lit03 \<le> lit09" "0 < lit09"
  by (simp_all add: lit_values)

lemma representable_foldl_fadd: "representable s \<Longrightarrow> representable (foldl fadd s xs)"
  by (induction xs arbitrary: s) simp_all

section \<open>The lexical scorer is the sum of the bonuses\<close>

text \<open>
  The built-ins of the code against the notions of the specification: \<^verbatim>\<open>includes\<close> is the
  contiguous occurrence, and the non-empty parts of \<^verbatim>\<open>split(' ')\<close> are the tokens.
\<close>

lemma startsWith_prefix: "startsWith hay needle \<longleftrightarrow> prefix needle hay"
  by (induction hay needle rule: startsWith.induct) auto

lemma str_includes_sublist: "str_includes hay needle \<longleftrightarrow> sublist needle hay"
  by (induction hay) (simp_all add: startsWith_prefix sublist_Cons_right del: startsWith.simps)

lemma split_takeWhile:
  "split sep s =
     takeWhile (\<lambda>d. d \<noteq> sep) s #
       (case dropWhile (\<lambda>d. d \<noteq> sep) s of [] \<Rightarrow> [] | d # rest \<Rightarrow> split sep rest)"
proof (induction s)
  case Nil
  show ?case by simp
next
  case (Cons c cs)
  show ?case
  proof (cases "c = sep")
    case True
    then show ?thesis by simp
  next
    case False
    then show ?thesis by (subst split.simps) (simp add: Cons split: list.splits)
  qed
qed

lemma tokens_leading_space: "tokens (0x20 # s) = tokens s"
  by (simp add: tokens_def runs_sep_Cons)

lemma tokens_Nil: "tokens [] = []"
  by (simp add: tokens_def runs.simps[of _ "[]"])

lemma tokens_Cons:
  "c \<noteq> 0x20 \<Longrightarrow>
   tokens (c # cs) = takeWhile (\<lambda>d. d \<noteq> 0x20) (c # cs) # tokens (dropWhile (\<lambda>d. d \<noteq> 0x20) cs)"
  by (simp add: tokens_def runs_Cons)

lemma tokens_split: "tokens s = filter (\<lambda>t. t \<noteq> []) (split 0x20 s)"
proof (induction s rule: length_induct)
  case (1 s)
  show ?case
  proof (cases s)
    case Nil
    then show ?thesis by (simp add: tokens_Nil)
  next
    case (Cons c cs)
    show ?thesis
    proof (cases "c = 0x20")
      case True
      from 1 Cons have "tokens cs = filter (\<lambda>t. t \<noteq> []) (split 0x20 cs)" by simp
      with True Cons show ?thesis by (simp add: tokens_leading_space)
    next
      case False
      let ?rest = "dropWhile (\<lambda>d. d \<noteq> 0x20) cs"
      have tk: "tokens s = takeWhile (\<lambda>d. d \<noteq> 0x20) s # tokens ?rest"
        using False Cons by (simp add: tokens_Cons)
      have sp: "split 0x20 s =
          takeWhile (\<lambda>d. d \<noteq> 0x20) s # (case ?rest of [] \<Rightarrow> [] | d # rest \<Rightarrow> split 0x20 rest)"
        using False Cons split_takeWhile[of "0x20" s] by simp
      have ne: "takeWhile (\<lambda>d. d \<noteq> 0x20) s \<noteq> []" using False Cons by simp
      have "tokens ?rest = filter (\<lambda>t. t \<noteq> []) (case ?rest of [] \<Rightarrow> [] | d # rest \<Rightarrow> split 0x20 rest)"
      proof (cases ?rest)
        case Nil
        show ?thesis unfolding Nil by (simp add: tokens_Nil)
      next
        case (Cons d rest)
        then have "d = 0x20" using hd_dropWhile[of "\<lambda>d. d \<noteq> 0x20" cs] by auto
        moreover have "length rest < length s"
        proof -
          have "length ?rest \<le> length cs" by (rule length_dropWhile_le)
          with Cons \<open>s = c # cs\<close> show ?thesis by simp
        qed
        with 1 have "tokens rest = filter (\<lambda>t. t \<noteq> []) (split 0x20 rest)" by simp
        ultimately show ?thesis unfolding Cons by (simp add: tokens_leading_space)
      qed
      with tk sp ne show ?thesis by simp
    qed
  qed
qed

lemma token_rule:
  "(\<exists>t \<in> set (split 0x20 a). 2 < length t \<and> (\<exists>pt \<in> set (split 0x20 b). pt = t \<or> str_includes pt t)) \<longleftrightarrow>
   (\<exists>t \<in> set (tokens a). 2 < length t \<and> (\<exists>pt \<in> set (tokens b). pt = t \<or> sublist t pt))"
proof -
  have ne: "t \<noteq> []" if "2 < length t" for t :: jstring using that by auto
  have ne': "pt \<noteq> []" if "t \<noteq> []" "sublist t pt" for t pt :: jstring using that by auto
  have in_tokens: "t \<in> set (tokens s) \<longleftrightarrow> t \<in> set (split 0x20 s) \<and> t \<noteq> []" for t s
    by (auto simp: tokens_split)
  show ?thesis
    unfolding str_includes_sublist Bex_def in_tokens using ne ne' by blast
qed

text \<open>
  The loops with their flags against the specification's words: the loop over the parts
  adds 0.4 once if some part matches, the loop over the participants stops at the first
  participant for which a rule fires, and the loop over the players adds the bonuses one
  after the other.
\<close>

lemma parts_loop_unmatched:
  "parts_loop parts pparts (s, False) =
     (if \<exists>t \<in> set parts. 2 < length t \<and> (\<exists>pt \<in> set pparts. pt = t \<or> str_includes pt t)
      then (fadd s lit04, True) else (s, False))"
  by (induction parts) (auto simp: list_ex_iff)

lemma participants_loop_matched: "participants_loop np pool (s, True) = (s, True)"
  by (cases pool) simp_all

lemma participants_loop_step:
  "participants_loop np (part # rest) (s, False) =
     (case rule_bonus np part of Some b \<Rightarrow> (fadd s b, True)
      | None \<Rightarrow> participants_loop np rest (s, False))"
  using token_rule[of np part]
  by (auto simp add: rule_bonus_def parts_loop_unmatched participants_loop_matched str_includes_sublist)

lemma participants_loop_bonus:
  assumes "representable s"
  shows "fst (participants_loop np pool (s, False)) = fadd s (player_bonus pool np)"
proof (induction pool)
  case Nil
  show ?case using assms by (simp add: player_bonus_def List.map_filter_simps fadd_0_right)
next
  case (Cons part rest)
  show ?case
  proof (cases "rule_bonus np part")
    case None
    with Cons show ?thesis
      by (simp add: participants_loop_step player_bonus_def List.map_filter_simps del: participants_loop.simps)
  next
    case (Some b)
    then show ?thesis
      by (simp add: participants_loop_step player_bonus_def List.map_filter_simps del: participants_loop.simps)
  qed
qed

lemma players_loop_sum:
  "representable s \<Longrightarrow>
   players_loop U ev names s =
     foldl fadd s (map (\<lambda>name. player_bonus (participants U ev) (normalizePlayerName U name)) names)"
  by (induction names arbitrary: s) (simp_all add: participants_loop_bonus del: participants_loop.simps)

lemma filter_Boolean_eq: "filter_Boolean vs = filter (\<lambda>s. s \<noteq> []) (List.map_filter id vs)"
  by (induction vs rule: filter_Boolean.induct) (simp_all add: List.map_filter_simps)

lemma participants_pool: "participants U ev = spec_pool U ev"
  by (simp add: participants_def spec_pool_def filter_Boolean_eq normalize_spec)

lemma sport_step_spec:
  "representable s \<Longrightarrow>
   sport_step U p ev s =
     fadd s (if truthy (pick.sport p) \<and> ci_equal U (pick.sport p) (event.sport ev) then lit02 else 0)"
  by (auto simp: sport_step_def ci_equal_def truthy_def fadd_0_right split: option.splits)

lemma league_step_spec:
  "representable s \<Longrightarrow>
   league_step U p ev s =
     fadd s (if truthy (pick.league p) \<and> ci_substring U (pick.league p) (event.league ev) then lit01 else 0)"
  by (auto simp: league_step_def ci_substring_def truthy_def fadd_0_right str_includes_sublist
      split: option.splits)

lemma event_score_bonuses: "event_score U p ev = foldl fadd 0 (bonuses U p ev)"
proof -
  let ?sb = "if truthy (pick.sport p) \<and> ci_equal U (pick.sport p) (event.sport ev) then lit02 else 0"
  let ?lb = "if truthy (pick.league p) \<and> ci_substring U (pick.league p) (event.league ev) then lit01 else 0"
  have s: "sport_step U p ev 0 = fadd 0 ?sb" by (rule sport_step_spec) simp
  have l: "league_step U p ev (fadd 0 ?sb) = fadd (fadd 0 ?sb) ?lb" by (rule league_step_spec) simp
  have "event_score U p ev = players_loop U ev (players p) (fadd (fadd 0 ?sb) ?lb)"
    by (simp only: event_score_def s l)
  also have "\<dots> = foldl fadd (fadd (fadd 0 ?sb) ?lb)
      (map (\<lambda>name. player_bonus (participants U ev) (normalizePlayerName U name)) (players p))"
    by (rule players_loop_sum) simp
  also have "\<dots> = foldl fadd 0 (bonuses U p ev)"
    by (simp add: bonuses_def participants_pool normalize_spec)
  finally show ?thesis .
qed

lemma representable_event_score [simp]: "representable (event_score U p ev)"
  by (simp add: event_score_bonuses representable_foldl_fadd)

text \<open>
  The loop over the events in closed form: \<^verbatim>\<open>bestScore\<close> is the running maximum,
  \<^verbatim>\<open>bestMatch\<close> the first event that reaches the final maximum (the comparison is strict),
  and \<^verbatim>\<open>allCandidates\<close> grows by the events that score above 0, in order.
\<close>

lemma fold_max_ge: "b \<le> fold max xs (b::real)"
proof (induction xs arbitrary: b)
  case Nil
  show ?case by simp
next
  case (Cons x xs)
  have "b \<le> max x b" by simp
  also have "\<dots> \<le> fold max xs (max x b)" by (rule Cons.IH)
  finally show ?case by simp
qed

lemma events_loop_state:
  "events_loop U p evs (bm, bs, acc) =
     ((if bs < fold max (map (event_score U p) evs) bs
       then List.find (\<lambda>e. event_score U p e = fold max (map (event_score U p) evs) bs) evs
       else bm),
      fold max (map (event_score U p) evs) bs,
      acc @ map (\<lambda>e. \<lparr> candidate.event = e, score = event_score U p e \<rparr>)
              (filter (\<lambda>e. 0 < event_score U p e) evs))"
proof (induction evs arbitrary: bm bs acc)
  case Nil
  show ?case by simp
next
  case (Cons ev rest)
  let ?f = "event_score U p"
  have mono: "\<And>b. b \<le> fold max (map ?f rest) b" by (rule fold_max_ge)
  show ?case
  proof (cases "bs < ?f ev")
    case True
    then have m: "max bs (?f ev) = ?f ev" by simp
    from mono[of "?f ev"] True have "bs < fold max (map ?f rest) (?f ev)" by simp
    with True m mono[of "?f ev"] show ?thesis
      by (auto simp: Cons.IH Let_def)
  next
    case False
    then have m: "max bs (?f ev) = bs" by simp
    with False mono[of bs] show ?thesis
      by (auto simp: Cons.IH Let_def)
  qed
qed

text \<open>
  With the comparator \<^verbatim>\<open>(a, b) => b.score - a.score\<close> on candidates whose scores are
  doubles, the insertion sort is the library's stable sort on the negated score: the
  rounded difference has the sign of the exact one.
\<close>

lemma sort_insert_insort:
  assumes "representable (candidate.score x)" and "\<forall>y \<in> set ys. representable (candidate.score y)"
  shows "sort_insert (\<lambda>a b. fsub (candidate.score b) (candidate.score a)) x ys =
    insort_key (\<lambda>c. - candidate.score c) x ys"
  using assms by (induction ys) (simp_all add: fsub_sign)

lemma array_sort_sort_key:
  assumes "\<forall>c \<in> set xs. representable (candidate.score c)"
  shows "array_sort (\<lambda>a b. fsub (candidate.score b) (candidate.score a)) xs =
    sort_key (\<lambda>c. - candidate.score c) xs"
  using assms
proof (induction xs)
  case Nil
  show ?case by (simp add: array_sort_def)
next
  case (Cons x xs)
  then have "array_sort (\<lambda>a b. fsub (candidate.score b) (candidate.score a)) xs =
      sort_key (\<lambda>c. - candidate.score c) xs" by simp
  moreover have "sort_insert (\<lambda>a b. fsub (candidate.score b) (candidate.score a)) x
      (sort_key (\<lambda>c. - candidate.score c) xs) =
      insort_key (\<lambda>c. - candidate.score c) x (sort_key (\<lambda>c. - candidate.score c) xs)"
    using Cons.prems by (intro sort_insert_insort) simp_all
  ultimately show ?case by (simp add: array_sort_def)
qed

lemma pushed_sorted:
  "array_sort (\<lambda>a b. fsub (candidate.score b) (candidate.score a))
     (map (\<lambda>e. \<lparr> candidate.event = e, score = event_score U p e \<rparr>)
        (filter (\<lambda>e. 0 < event_score U p e) events)) =
   sort_key (\<lambda>c. - candidate.score c) (pushed U p events)"
  unfolding pushed_def by (rule array_sort_sort_key) simp

lemma fold_max_Max: "fold max xs (b::real) = Max (insert b (set xs))"
proof (induction xs arbitrary: b)
  case Nil
  show ?case by simp
next
  case (Cons x xs)
  have "Max (insert (max x b) (set xs)) = Max (insert b (insert x (set xs)))"
    by (cases "set xs = {}") (simp_all add: max.commute max.left_commute)
  with Cons show ?case by simp
qed

lemma simple_result_shape:
  assumes "players p \<noteq> []"
  shows "findMatchingEventSimple U p events =
    Some \<lparr> simple_result.event =
             (if 0 < top_score U p events
              then List.find (\<lambda>e. event_score U p e = top_score U p events) events else None),
           confidence = min (top_score U p events) 1,
           allCandidates = sort_key (\<lambda>c. - candidate.score c) (pushed U p events) \<rparr>"
proof -
  let ?m = "top_score U p events"
  have m: "fold max (map (event_score U p) events) 0 = ?m"
    by (simp add: fold_max_Max top_score_def)
  have ge: "0 \<le> ?m" unfolding top_score_def by simp
  show ?thesis
  proof (cases "0 < ?m")
    case True
    then obtain e where e: "List.find (\<lambda>e. event_score U p e = ?m) events = Some e"
    proof -
      have "?m \<in> insert 0 (set (map (event_score U p) events))"
        unfolding top_score_def by (rule Max_in) simp_all
      with True have "\<exists>e\<in>set events. event_score U p e = ?m" by auto
      then have "List.find (\<lambda>e. event_score U p e = ?m) events \<noteq> None"
        unfolding find_None_iff by blast
      with that show ?thesis by auto
    qed
    with True assms m show ?thesis
      by (simp add: findMatchingEventSimple_def events_loop_state pushed_sorted)
  next
    case False
    with ge have z: "?m = 0" by simp
    with assms m show ?thesis
      by (simp add: findMatchingEventSimple_def events_loop_state pushed_sorted)
  qed
qed

lemma sorted_desc:
  "sorted_wrt (\<lambda>a b. candidate.score b \<le> candidate.score a) (sort_key (\<lambda>c. - candidate.score c) xs)"
proof -
  have "sorted (map (\<lambda>c. - candidate.score c) (sort_key (\<lambda>c. - candidate.score c) xs))"
    by (rule sorted_sort_key)
  then show ?thesis by (simp add: sorted_map)
qed

lemma stable_desc:
  "filter (\<lambda>c. candidate.score c = k) (sort_key (\<lambda>c. - candidate.score c) xs) =
   filter (\<lambda>c. candidate.score c = k) xs"
  using sort_key_stable[of "\<lambda>c. - candidate.score c" "- k" xs] by simp
text \<open>
  Two facts the policy relies on: the scorer has no event exactly when its confidence is
  0, and its best match is the head of the sorted candidates.
\<close>

lemma top_score_nonneg: "0 \<le> top_score U p events"
  unfolding top_score_def by simp

lemma top_score_ge: "e \<in> set events \<Longrightarrow> event_score U p e \<le> top_score U p events"
  unfolding top_score_def by simp

lemma find_hd_filter: "List.find P xs = Some x \<Longrightarrow> filter P xs \<noteq> [] \<and> hd (filter P xs) = x"
  by (induction xs) (auto split: if_splits)

lemma simple_result_event_conf:
  assumes "findMatchingEventSimple U p events = Some r"
  shows "(simple_result.event r = None \<longleftrightarrow> simple_result.confidence r = 0)"
    and "0 \<le> simple_result.confidence r" and "simple_result.confidence r \<le> 1"
proof -
  from assms have pl: "players p \<noteq> []"
    by (auto simp: findMatchingEventSimple_def split: if_splits)
  note sh = simple_result_shape[OF pl, of U events]
  let ?m = "top_score U p events"
  have ex: "0 < ?m \<Longrightarrow> List.find (\<lambda>e. event_score U p e = ?m) events \<noteq> None"
  proof -
    assume pos: "0 < ?m"
    have "?m \<in> insert 0 (set (map (event_score U p) events))"
      unfolding top_score_def by (rule Max_in) simp_all
    with pos have "\<exists>e\<in>set events. event_score U p e = ?m" by auto
    then show ?thesis unfolding find_None_iff by blast
  qed
  from assms sh have r: "r = \<lparr> simple_result.event =
             (if 0 < ?m then List.find (\<lambda>e. event_score U p e = ?m) events else None),
           confidence = min ?m 1,
           allCandidates = sort_key (\<lambda>c. - candidate.score c) (pushed U p events) \<rparr>" by simp
  show "(simple_result.event r = None \<longleftrightarrow> simple_result.confidence r = 0)"
    using ex top_score_nonneg[of U p events] by (cases "0 < ?m") (auto simp: r min_def)
  show "0 \<le> simple_result.confidence r" using top_score_nonneg[of U p events] by (simp add: r)
  show "simple_result.confidence r \<le> 1" by (simp add: r)
qed

lemma simple_result_head:
  assumes "findMatchingEventSimple U p events = Some r" and "simple_result.event r = Some e"
  shows "allCandidates r \<noteq> []" and "candidate.event (hd (allCandidates r)) = e"
proof -
  from assms(1) have pl: "players p \<noteq> []"
    by (auto simp: findMatchingEventSimple_def split: if_splits)
  let ?m = "top_score U p events"
  let ?P = "\<lambda>e. event_score U p e = ?m"
  let ?mk = "\<lambda>e. \<lparr> candidate.event = e, score = event_score U p e \<rparr>"
  let ?xs = "pushed U p events"
  let ?cs = "sort_key (\<lambda>c. - candidate.score c) ?xs"
  from assms simple_result_shape[OF pl, of U events]
  have pos: "0 < ?m" and fe: "List.find ?P events = Some e" and cs: "allCandidates r = ?cs"
    by (auto split: if_splits)
  from find_hd_filter[OF fe] have fne: "filter ?P events \<noteq> []" and hdf: "hd (filter ?P events) = e"
    by simp_all
  have same: "filter (\<lambda>x. 0 < event_score U p x \<and> event_score U p x = ?m) events = filter ?P events"
    using pos by (auto intro: filter_cong)
  have fx: "filter (\<lambda>c. candidate.score c = ?m) ?xs = map ?mk (filter ?P events)"
    by (simp add: pushed_def filter_map comp_def same)
  have st: "filter (\<lambda>c. candidate.score c = ?m) ?cs = map ?mk (filter ?P events)"
    by (simp only: stable_desc fx)
  with fne have csne: "?cs \<noteq> []" by auto
  then obtain h t where ht: "?cs = h # t" by (cases ?cs) auto
  have hin: "h \<in> set ?xs"
  proof -
    have "h \<in> set ?cs" by (simp add: ht)
    then show ?thesis by simp
  qed
  then have hle: "candidate.score h \<le> ?m"
    by (auto simp: pushed_def top_score_ge)
  from st fne have "filter (\<lambda>c. candidate.score c = ?m) ?cs \<noteq> []" by simp
  then obtain c where c: "c \<in> set ?cs" "candidate.score c = ?m"
    unfolding filter_empty_conv by blast
  from sorted_desc[of ?xs] ht have "\<forall>y\<in>set t. candidate.score y \<le> candidate.score h" by simp
  with c ht have "?m \<le> candidate.score h" by auto
  with hle have hm: "candidate.score h = ?m" by simp
  with st ht have "h # filter (\<lambda>c. candidate.score c = ?m) t = map ?mk (filter ?P events)" by simp
  then have "h = hd (map ?mk (filter ?P events))" by (metis list.sel(1))
  with fne hdf have "h = ?mk e" by (simp add: hd_map)
  with cs ht show "candidate.event (hd (allCandidates r)) = e" by simp
  from cs csne show "allCandidates r \<noteq> []" by simp
qed

text \<open>
  The scores of the examples, as fractions. \<^verbatim>\<open>0.2 + 0.6\<close> is the double \<^verbatim>\<open>0.8\<close>;
  \<^verbatim>\<open>0.2 + 0.1 + 0.4\<close> is \<^verbatim>\<open>0.7000000000000001\<close>, one unit in the last place above the literal
  \<^verbatim>\<open>0.7\<close>; \<^verbatim>\<open>0.2 + 0.1 + 0.6 + 0.4\<close> is the double \<^verbatim>\<open>1.3\<close>.
\<close>

lemmas scorer_defs = event_score_def sport_step_def league_step_def participants_def
  findMatchingEventSimple_def array_sort_def Let_def

lemma galan_score: "event_score latin1 galan_pick galan_event = 3602879701896397 / 4503599627370496"
  by (simp add: scorer_defs galan_event_def galan_pick_def host_defs lit_values double_eval)

lemma doubles_score: "event_score latin1 galan_pick doubles_event = 3602879701896397 / 18014398509481984"
  by (simp add: scorer_defs doubles_event_def galan_pick_def host_defs lit_values double_eval)

lemma rematch_score: "event_score latin1 galan_pick rematch_event = 3602879701896397 / 4503599627370496"
  by (simp add: scorer_defs rematch_event_def galan_pick_def host_defs lit_values double_eval)

lemma pair_score: "event_score latin1 pair_pick galan_event = 5854679515581645 / 4503599627370496"
  by (simp add: scorer_defs galan_event_def pair_pick_def galan_capitals_def host_defs lit_values
        double_eval)

lemma pair_doubles_score:
  "event_score latin1 pair_pick doubles_event = 3602879701896397 / 18014398509481984"
  by (simp add: scorer_defs doubles_event_def pair_pick_def galan_capitals_def host_defs lit_values
        double_eval)

lemma daniel_score: "event_score latin1 daniel_pick galan_event = 6305039478318695 / 9007199254740992"
  by (simp add: scorer_defs galan_event_def daniel_pick_def host_defs lit_values double_eval)

lemma daniel_bare_score: "event_score latin1 daniel_pick bare_event = 3152519739159347 / 4503599627370496"
  by (simp add: scorer_defs bare_event_def daniel_pick_def host_defs lit_values double_eval)

text \<open>
  C2. For every pick and event the lexical score is the sum, as JavaScript takes it (from
  0, in the order sport, league, players, every addition rounded to the nearest double),
  of the sport bonus 0.2, the league bonus 0.1 and, for each player of the pick, the
  bonus of the first rule that fires against the normalized participant pool (0.7, 0.6,
  0.5, 0.4 in this precedence, 0 when no rule fires); and the confidence of the scorer
  is \<open>min bestScore 1.0\<close>, where \<open>bestScore\<close> is the highest score of the event list.
\<close>

theorem lexical_score_is_sum:
  "event_score U p ev = spec_score U p ev \<and>
   (players p \<noteq> [] \<longrightarrow>
      (\<exists>r. findMatchingEventSimple U p events = Some r \<and>
           simple_result.confidence r = min (top_score U p events) 1))"
proof (intro conjI impI)
  show "event_score U p ev = spec_score U p ev"
    by (simp only: event_score_bonuses spec_score_def)
next
  assume "players p \<noteq> []"
  then have "findMatchingEventSimple U p events =
      Some \<lparr> simple_result.event =
               (if 0 < top_score U p events
                then List.find (\<lambda>e. event_score U p e = top_score U p events) events else None),
             confidence = min (top_score U p events) 1,
             allCandidates = sort_key (\<lambda>c. - candidate.score c) (pushed U p events) \<rparr>"
    by (rule simple_result_shape)
  then show "\<exists>r. findMatchingEventSimple U p events = Some r \<and>
      simple_result.confidence r = min (top_score U p events) 1"
    by simp
qed

text \<open>
  The pick "GAL\<^verbatim>\<open>\u00c1\<close>N", "Midon, L." with sport "TENNIS" and league "atp" against the event
  of Daniel Elahi Galan and Lautaro Midon, sport "tennis", league "ATP Buenos Aires":
  \<^verbatim>\<open>0.2 + 0.1 + 0.6 + 0.4\<close> (the first player is a substring of the first participant, a
  token of the second player is a token of the second participant), confidence 1. The
  pick "Daniel Galan" against the same event: \<^verbatim>\<open>0.2 + 0.1 + 0.4 = 0.7000000000000001\<close>.
\<close>

theorem lexical_score_is_sum_witness:
  "spec_score latin1 pair_pick galan_event = 5854679515581645 / 4503599627370496 \<and>
   spec_score latin1 daniel_pick galan_event = 6305039478318695 / 9007199254740992 \<and>
   spec_score latin1 daniel_pick galan_event \<noteq> lit07 \<and>
   (\<exists>r. findMatchingEventSimple latin1 pair_pick [doubles_event, galan_event] = Some r \<and>
        simple_result.confidence r = 1)"
proof -
  have pl: "players pair_pick \<noteq> []" by (simp add: pair_pick_def)
  have top: "top_score latin1 pair_pick [doubles_event, galan_event] = 5854679515581645 / 4503599627370496"
    by (simp add: top_score_def pair_score pair_doubles_score)
  from lexical_score_is_sum[of latin1 pair_pick galan_event "[doubles_event, galan_event]"] pl
  obtain r where sp: "event_score latin1 pair_pick galan_event = spec_score latin1 pair_pick galan_event"
    and r: "findMatchingEventSimple latin1 pair_pick [doubles_event, galan_event] = Some r"
      "simple_result.confidence r = min (top_score latin1 pair_pick [doubles_event, galan_event]) 1"
    by blast
  from r(2) have conf: "simple_result.confidence r = 1" unfolding top by simp
  from lexical_score_is_sum[of latin1 daniel_pick galan_event "[]"]
  have sd: "event_score latin1 daniel_pick galan_event = spec_score latin1 daniel_pick galan_event"
    by blast
  have a: "spec_score latin1 pair_pick galan_event = 5854679515581645 / 4503599627370496"
    using sp pair_score by (simp only:)
  have b: "spec_score latin1 daniel_pick galan_event = 6305039478318695 / 9007199254740992"
    using sd daniel_score by (simp only:)
  have c: "spec_score latin1 daniel_pick galan_event \<noteq> lit07"
    unfolding b by (simp add: lit_values)
  from a b c r(1) conf show ?thesis by blast
qed

text \<open>
  C7. When events tie at the top score (a positive score: an event that scores 0 is no
  candidate), the scorer returns the one that comes first in the input; the candidates
  are sorted by descending score, and candidates of equal score keep the order of the
  input. Scores are compared as the doubles they are: two events tie when their rounded
  sums are the same double.
\<close>

theorem ties_favor_earlier_event:
  assumes "players p \<noteq> []"
  shows "\<exists>r. findMatchingEventSimple U p events = Some r \<and>
    (\<forall>i<length events.
        0 < event_score U p (events ! i) \<and>
        (\<forall>j<length events. event_score U p (events ! j) \<le> event_score U p (events ! i)) \<and>
        (\<forall>j<i. event_score U p (events ! j) \<noteq> event_score U p (events ! i)) \<longrightarrow>
        simple_result.event r = Some (events ! i)) \<and>
    sorted_wrt (\<lambda>a b. candidate.score b \<le> candidate.score a) (allCandidates r) \<and>
    (\<forall>k. filter (\<lambda>c. candidate.score c = k) (allCandidates r) =
         filter (\<lambda>c. candidate.score c = k) (pushed U p events))"
proof -
  let ?f = "event_score U p"
  let ?m = "top_score U p events"
  have first: "(if 0 < ?m then List.find (\<lambda>e. ?f e = ?m) events else None) = Some (events ! i)"
    if i: "i < length events" and pos: "0 < ?f (events ! i)"
      and top: "\<forall>j<length events. ?f (events ! j) \<le> ?f (events ! i)"
      and early: "\<forall>j<i. ?f (events ! j) \<noteq> ?f (events ! i)" for i
  proof -
    have "?m = ?f (events ! i)"
      unfolding top_score_def
    proof (rule Max_eqI)
      fix y assume "y \<in> insert 0 (set (map ?f events))"
      with pos top show "y \<le> ?f (events ! i)" by (auto simp: in_set_conv_nth)
    next
      from i show "?f (events ! i) \<in> insert 0 (set (map ?f events))" by simp
    qed simp
    with i pos early show ?thesis
      by (auto simp: find_Some_iff)
  qed
  show ?thesis
    using first by (simp add: simple_result_shape[OF assms] sorted_desc stable_desc)
qed

text \<open>
  Three events for the pick "Galan" with sport "tennis": the second and the third tie at
  \<^verbatim>\<open>0.2 + 0.6\<close>, and the second is returned. Two events for the pick "Daniel Galan" with
  sport and league: the first scores the literal \<^verbatim>\<open>0.7\<close> by exact equality, the second
  \<^verbatim>\<open>0.2 + 0.1 + 0.4 = 0.7000000000000001\<close>; this is no tie, and the second is returned.
\<close>

theorem ties_favor_earlier_event_witness:
  "(\<exists>r. findMatchingEventSimple latin1 galan_pick [doubles_event, galan_event, rematch_event] = Some r \<and>
       simple_result.event r = Some galan_event \<and>
       filter (\<lambda>c. candidate.score c = fadd lit02 lit06) (allCandidates r) =
         [\<lparr> candidate.event = galan_event, score = fadd lit02 lit06 \<rparr>,
          \<lparr> candidate.event = rematch_event, score = fadd lit02 lit06 \<rparr>]) \<and>
   (\<exists>r. findMatchingEventSimple latin1 daniel_pick [bare_event, galan_event] = Some r \<and>
       simple_result.event r = Some galan_event)"
proof -
  let ?events = "[doubles_event, galan_event, rematch_event]"
  let ?s = "\<lambda>e. event_score latin1 galan_pick e"
  have v: "fadd lit02 lit06 = 3602879701896397 / 4503599627370496"
    by (simp add: lit_values double_eval)
  have pl: "players galan_pick \<noteq> []" by (simp add: galan_pick_def)
  from ties_favor_earlier_event[OF pl, of latin1 ?events]
  obtain r where r: "findMatchingEventSimple latin1 galan_pick ?events = Some r"
    and first: "\<forall>i<length ?events.
        0 < ?s (?events ! i) \<and>
        (\<forall>j<length ?events. ?s (?events ! j) \<le> ?s (?events ! i)) \<and>
        (\<forall>j<i. ?s (?events ! j) \<noteq> ?s (?events ! i)) \<longrightarrow>
        simple_result.event r = Some (?events ! i)"
    and stable: "\<forall>k. filter (\<lambda>c. candidate.score c = k) (allCandidates r) =
         filter (\<lambda>c. candidate.score c = k) (pushed latin1 galan_pick ?events)"
    by blast
  have top: "0 < ?s (?events ! 1) \<and>
        (\<forall>j<length ?events. ?s (?events ! j) \<le> ?s (?events ! 1)) \<and>
        (\<forall>j<1. ?s (?events ! j) \<noteq> ?s (?events ! 1))"
  proof (intro conjI allI impI)
    show "0 < ?s (?events ! 1)" by (simp add: galan_score)
    show "?s (?events ! j) \<le> ?s (?events ! 1)" if "j < length ?events" for j
    proof -
      from that have "j = 0 \<or> j = 1 \<or> j = 2" by auto
      then show ?thesis by (auto simp: galan_score doubles_score rematch_score)
    qed
    show "?s (?events ! j) \<noteq> ?s (?events ! 1)" if "j < 1" for j
      using that by (simp add: galan_score doubles_score)
  qed
  from spec[OF first, of 1] top have ev: "simple_result.event r = Some galan_event" by simp
  have pf: "filter (\<lambda>c. candidate.score c = fadd lit02 lit06) (pushed latin1 galan_pick ?events) =
      [\<lparr> candidate.event = galan_event, score = fadd lit02 lit06 \<rparr>,
       \<lparr> candidate.event = rematch_event, score = fadd lit02 lit06 \<rparr>]"
    unfolding v by (simp add: pushed_def galan_score doubles_score rematch_score)
  from spec[OF stable, of "fadd lit02 lit06"] pf
  have "filter (\<lambda>c. candidate.score c = fadd lit02 lit06) (allCandidates r) =
      [\<lparr> candidate.event = galan_event, score = fadd lit02 lit06 \<rparr>,
       \<lparr> candidate.event = rematch_event, score = fadd lit02 lit06 \<rparr>]"
    by (simp only:)
  with r ev have tie: "\<exists>r. findMatchingEventSimple latin1 galan_pick ?events = Some r \<and>
       simple_result.event r = Some galan_event \<and>
       filter (\<lambda>c. candidate.score c = fadd lit02 lit06) (allCandidates r) =
         [\<lparr> candidate.event = galan_event, score = fadd lit02 lit06 \<rparr>,
          \<lparr> candidate.event = rematch_event, score = fadd lit02 lit06 \<rparr>]"
    by blast
  let ?near = "[bare_event, galan_event]"
  let ?d = "\<lambda>e. event_score latin1 daniel_pick e"
  have pd: "players daniel_pick \<noteq> []" by (simp add: daniel_pick_def)
  from ties_favor_earlier_event[OF pd, of latin1 ?near]
  obtain r' where r': "findMatchingEventSimple latin1 daniel_pick ?near = Some r'"
    and first': "\<forall>i<length ?near.
        0 < ?d (?near ! i) \<and>
        (\<forall>j<length ?near. ?d (?near ! j) \<le> ?d (?near ! i)) \<and>
        (\<forall>j<i. ?d (?near ! j) \<noteq> ?d (?near ! i)) \<longrightarrow>
        simple_result.event r' = Some (?near ! i)"
    by blast
  have top': "0 < ?d (?near ! 1) \<and>
        (\<forall>j<length ?near. ?d (?near ! j) \<le> ?d (?near ! 1)) \<and>
        (\<forall>j<1. ?d (?near ! j) \<noteq> ?d (?near ! 1))"
  proof (intro conjI allI impI)
    show "0 < ?d (?near ! 1)" by (simp add: daniel_score)
    show "?d (?near ! j) \<le> ?d (?near ! 1)" if "j < length ?near" for j
    proof -
      from that have "j = 0 \<or> j = 1" by auto
      then show ?thesis by (auto simp: daniel_score daniel_bare_score)
    qed
    show "?d (?near ! j) \<noteq> ?d (?near ! 1)" if "j < 1" for j
      using that by (simp add: daniel_score daniel_bare_score)
  qed
  from spec[OF first', of 1] top' have "simple_result.event r' = Some galan_event" by simp
  with r' have near: "\<exists>r. findMatchingEventSimple latin1 daniel_pick ?near = Some r \<and>
       simple_result.event r = Some galan_event" by blast
  from tie near show ?thesis by (rule conjI)
qed

section \<open>The resolution policy, branch by branch\<close>

text \<open>One lemma for each path through \<^verbatim>\<open>findMatchingEventWithDebug\<close>.\<close>

lemma at_least_Some [simp]: "at_least (Some r) t = (t \<le> simple_result.confidence r)"
  by (simp add: at_least_def)

lemma at_least_None [simp]: "at_least None t = False"
  by (simp add: at_least_def)

lemma llm_requests [simp]:
  "snd (findMatchingEventLLM llm p events key) =
     [\<lparr> apiKey = key, parsedPick = p, summaries = eventSummaries events \<rparr>]"
  by (simp add: findMatchingEventLLM_def Let_def)

lemma policy_empty: "findMatchingEventWithDebug U llm p [] key =
    (\<lparr> match_result.event = None, confidence = 0, candidates = [] \<rparr>, [])"
  by (simp add: findMatchingEventWithDebug_def)

lemma policy_final:
  assumes "events \<noteq> []" and "findMatchingEventSimple U p events = Some r"
    and "lit07 \<le> simple_result.confidence r \<or> lit05 \<le> simple_result.confidence r \<and> \<not> truthy key"
  shows "findMatchingEventWithDebug U llm p events key =
    (\<lparr> match_result.event = simple_result.event r, confidence = simple_result.confidence r,
       candidates = allCandidates r \<rparr>, [])"
  using assms lit_order(3) by (auto simp: findMatchingEventWithDebug_def lexical_def candidates_of_def)

lemma policy_escalate:
  assumes "events \<noteq> []" and "truthy key"
    and "\<not> at_least (findMatchingEventSimple U p events) lit07"
  shows "findMatchingEventWithDebug U llm p events key =
    (case fst (findMatchingEventLLM llm p events key) of
       Some e \<Rightarrow> \<lparr> match_result.event = Some e, confidence = lit09,
                   candidates = candidates_of (findMatchingEventSimple U p events) \<rparr>
     | None \<Rightarrow> if at_least (findMatchingEventSimple U p events) lit03
               then lexical (findMatchingEventSimple U p events)
               else \<lparr> match_result.event = None, confidence = 0,
                      candidates = candidates_of (findMatchingEventSimple U p events) \<rparr>,
     snd (findMatchingEventLLM llm p events key))"
  using assms
  by (cases "findMatchingEventLLM llm p events key")
     (auto simp: findMatchingEventWithDebug_def Let_def split: option.splits)

lemma policy_no_resolver:
  assumes "events \<noteq> []" and "\<not> truthy key"
    and "\<not> at_least (findMatchingEventSimple U p events) lit05"
  shows "findMatchingEventWithDebug U llm p events key =
    (if at_least (findMatchingEventSimple U p events) lit03
     then lexical (findMatchingEventSimple U p events)
     else \<lparr> match_result.event = None, confidence = 0,
            candidates = candidates_of (findMatchingEventSimple U p events) \<rparr>, [])"
  using assms by (auto simp: findMatchingEventWithDebug_def Let_def)

lemma policy_invoked:
  "snd (findMatchingEventWithDebug U llm p events key) \<noteq> [] \<longleftrightarrow>
     events \<noteq> [] \<and> truthy key \<and> \<not> at_least (findMatchingEventSimple U p events) lit07"
proof (cases "events = []")
  case True
  then show ?thesis by (simp add: policy_empty)
next
  case ne: False
  show ?thesis
  proof (cases "truthy key")
    case True
    show ?thesis
    proof (cases "at_least (findMatchingEventSimple U p events) lit07")
      case a: True
      then have "at_least (findMatchingEventSimple U p events) lit05"
        using lit_order(3) by (auto simp: at_least_def split: option.splits)
      with a ne True show ?thesis by (simp add: findMatchingEventWithDebug_def Let_def)
    next
      case False
      with ne True show ?thesis by (simp add: policy_escalate)
    qed
  next
    case False
    with ne show ?thesis
      by (cases "at_least (findMatchingEventSimple U p events) lit05")
         (simp_all add: policy_no_resolver, simp add: findMatchingEventWithDebug_def Let_def)
  qed
qed

lemma federer_score: "event_score latin1 federer_pick galan_event = 0"
  by (simp add: scorer_defs galan_event_def federer_pick_def host_defs)


lemma api_key_truthy: "truthy api_key"
  by (simp add: api_key_def truthy_def ascii_def)

lemma simple_no_players: "players p = [] \<Longrightarrow> findMatchingEventSimple U p events = None"
  by (simp add: findMatchingEventSimple_def)


text \<open>
  What \<^verbatim>\<open>findMatchingEventLLM\<close> selects, for every answer: the event at the index that the
  answer names, if it names one and the event list has it.
\<close>

lemma array_get_index:
  assumes "0 \<le> i" and "of_int \<lfloor>i\<rfloor> = i"
  shows "(if i < of_nat (length xs) then array_get xs i else None) =
    (if nat \<lfloor>i\<rfloor> < length xs then Some (xs ! nat \<lfloor>i\<rfloor>) else None)"
proof -
  from assms(1) have "0 \<le> \<lfloor>i\<rfloor>" by simp
  then have "nat \<lfloor>i\<rfloor> < length xs \<longleftrightarrow> \<lfloor>i\<rfloor> < int (length xs)" by linarith
  also have "\<dots> \<longleftrightarrow> i < of_int (int (length xs))" by (simp only: floor_less_iff)
  finally have "nat \<lfloor>i\<rfloor> < length xs \<longleftrightarrow> i < of_nat (length xs)" by simp
  with assms show ?thesis by (simp add: array_get_def)
qed

lemma guarded_read_index:
  "guarded_read events (Some v) =
     (if conversion_throws v then Inl TypeError
      else Inr (case property_index v of
                  Some n \<Rightarrow> if n < length events then Some (events ! n) else None
                | None \<Rightarrow> None))"
proof (cases v)
  case (JNumber i)
  show ?thesis
  proof (cases "0 \<le> i \<and> of_int \<lfloor>i\<rfloor> = i")
    case True
    with array_get_index[of i events] show ?thesis
      by (simp add: guarded_read_def JNumber split: if_splits)
  next
    case False
    then show ?thesis by (auto simp: guarded_read_def JNumber array_get_def)
  qed
qed (simp_all add: guarded_read_def split: option.splits)

lemma try_block_index:
  "(case try_block events answer of Inl error \<Rightarrow> None | Inr found \<Rightarrow> found) =
     (case matchIndex_of answer of
        Some v \<Rightarrow>
          if conversion_throws v then None
          else (case property_index v of
                  Some n \<Rightarrow> if n < length events then Some (events ! n) else None
                | None \<Rightarrow> None)
      | None \<Rightarrow> None)"
proof -
  have none: "guarded_read events None = Inr None" by (simp add: guarded_read_def)
  show ?thesis
  proof (cases answer rule: matchIndex_of.cases)
    case (1 members rest)
    with none show ?thesis
      by (simp add: try_block_def get_property_def guarded_read_index split: option.splits)
  qed (simp_all add: try_block_def get_property_def none)
qed

lemma llm_selection:
  "fst (findMatchingEventLLM llm p events key) =
     (case matchIndex_of (llm \<lparr> apiKey = key, parsedPick = p, summaries = eventSummaries events \<rparr>) of
        Some v \<Rightarrow>
          if conversion_throws v then None
          else (case property_index v of
                  Some n \<Rightarrow> if n < length events then Some (events ! n) else None
                | None \<Rightarrow> None)
      | None \<Rightarrow> None)"
  by (simp add: findMatchingEventLLM_def Let_def try_block_index)













lemma matchIndex_member:
  "map_of (rev [(ascii ''matchIndex'', v), (ascii ''confidence'', c), (ascii ''reasoning'', r)])
     (ascii ''matchIndex'') = Some v"
  by (simp add: ascii_def)

lemma selecting_matchIndex: "matchIndex_of (selecting v c request) = Some v"
  by (simp only: selecting_def matchIndex_of.simps matchIndex_member)

lemma llm_selects:
  "n < length events \<Longrightarrow>
   fst (findMatchingEventLLM (selecting (JNumber (of_nat n)) c) p events key) = Some (events ! n)"
  by (simp add: llm_selection selecting_matchIndex)

text \<open>
  C5. For the empty event list, resolution returns the result with no event, confidence
  0 and no candidates, and sends no request to the resolver, whatever the pick and the
  key are.
\<close>

theorem empty_events_resolution:
  "findMatchingEventWithDebug U llm p [] key =
     (\<lparr> match_result.event = None, confidence = 0, candidates = [] \<rparr>, [])"
  by (rule policy_empty)

text \<open>
  C1. For a pick with players and a non-empty event list, let \<open>conf\<close> be the confidence
  of the lexical scorer. When \<open>conf \<ge> 0.7\<close>, or \<open>conf \<ge> 0.5\<close> and no resolver is
  available, the policy returns the lexical result with the lexical confidence and sends
  no request. Otherwise, when a resolver is available it is invoked (one request), and
  when it selects nothing the lexical result is returned if \<open>conf \<ge> 0.3\<close>, else the
  result with no event, confidence 0 and the candidates of the scorer. When no resolver
  is available the same fallback applies (step 5 of the specification). A request is
  sent exactly when neither condition of the first step holds and a resolver is
  available. The thresholds are the doubles that the literals \<^verbatim>\<open>0.7\<close>, \<^verbatim>\<open>0.5\<close> and \<^verbatim>\<open>0.3\<close>
  denote, and the confidence is compared with them as a double.
\<close>

theorem resolution_policy_thresholds:
  assumes "players p \<noteq> []" and "events \<noteq> []"
  shows "\<exists>r. findMatchingEventSimple U p events = Some r \<and>
    (let conf = simple_result.confidence r;
         lex = \<lparr> match_result.event = simple_result.event r, confidence = conf,
                 candidates = allCandidates r \<rparr>;
         none = \<lparr> match_result.event = None, confidence = 0, candidates = allCandidates r \<rparr>;
         final = (lit07 \<le> conf \<or> lit05 \<le> conf \<and> \<not> truthy key);
         out = findMatchingEventWithDebug U llm p events key;
         escalation = findMatchingEventLLM llm p events key
     in (final \<longrightarrow> out = (lex, [])) \<and>
        (\<not> final \<and> truthy key \<longrightarrow>
           snd out = snd escalation \<and> length (snd escalation) = 1 \<and>
           (fst escalation = None \<longrightarrow> fst out = (if lit03 \<le> conf then lex else none))) \<and>
        (\<not> final \<and> \<not> truthy key \<longrightarrow> out = (if lit03 \<le> conf then lex else none, [])) \<and>
        (snd out = [] \<longleftrightarrow> final \<or> \<not> truthy key))"
proof -
  from assms(1) obtain r where r: "findMatchingEventSimple U p events = Some r"
    by (simp add: simple_result_shape)
  let ?conf = "simple_result.confidence r"
  let ?final = "lit07 \<le> ?conf \<or> lit05 \<le> ?conf \<and> \<not> truthy key"
  have lex: "lexical (Some r) = \<lparr> match_result.event = simple_result.event r, confidence = ?conf,
                 candidates = allCandidates r \<rparr>"
    by (simp add: lexical_def candidates_of_def)
  have a: "?final \<Longrightarrow> findMatchingEventWithDebug U llm p events key = (lexical (Some r), [])"
    using policy_final[OF assms(2) r, of key llm] lex by simp
  have b: "\<not> ?final \<Longrightarrow> truthy key \<Longrightarrow>
      snd (findMatchingEventWithDebug U llm p events key) = snd (findMatchingEventLLM llm p events key) \<and>
      (fst (findMatchingEventLLM llm p events key) = None \<longrightarrow>
         fst (findMatchingEventWithDebug U llm p events key) =
           (if lit03 \<le> ?conf then lexical (Some r)
            else \<lparr> match_result.event = None, confidence = 0, candidates = allCandidates r \<rparr>))"
    using policy_escalate[OF assms(2), of key U p llm] r
    by (auto simp: candidates_of_def)
  have c: "\<not> ?final \<Longrightarrow> \<not> truthy key \<Longrightarrow>
      findMatchingEventWithDebug U llm p events key =
        (if lit03 \<le> ?conf then lexical (Some r)
         else \<lparr> match_result.event = None, confidence = 0, candidates = allCandidates r \<rparr>, [])"
    using policy_no_resolver[OF assms(2), of key U p llm] r
    by (auto simp: candidates_of_def)
  have d: "snd (findMatchingEventWithDebug U llm p events key) = [] \<longleftrightarrow> ?final \<or> \<not> truthy key"
    using policy_invoked[of U llm p events key] assms(2) r by auto
  show ?thesis
    unfolding Let_def
  proof (intro exI[of _ r] conjI impI)
    show "findMatchingEventSimple U p events = Some r" by (rule r)
  qed (use a b c d lex in \<open>auto\<close>)
qed


lemma doubles_simple:
  "findMatchingEventSimple latin1 galan_pick [doubles_event] =
     Some \<lparr> simple_result.event = Some doubles_event, confidence = lit02,
            allCandidates = [\<lparr> candidate.event = doubles_event, score = lit02 \<rparr>] \<rparr>"
proof -
  have "players galan_pick \<noteq> []" by (simp add: galan_pick_def)
  then show ?thesis
    by (simp add: findMatchingEventSimple_def array_sort_def Let_def doubles_score lit_values)
qed

lemma failing_no_selection: "fst (findMatchingEventLLM failing p events key) = None"
  by (simp add: findMatchingEventLLM_def failing_def try_block_def Let_def)

theorem resolution_policy_thresholds_witness:
  "findMatchingEventWithDebug latin1 failing galan_pick [doubles_event] api_key =
     (\<lparr> match_result.event = None, confidence = 0,
        candidates = [\<lparr> candidate.event = doubles_event, score = lit02 \<rparr>] \<rparr>,
      [\<lparr> apiKey = api_key, parsedPick = galan_pick, summaries = eventSummaries [doubles_event] \<rparr>])"
proof -
  have pl: "players galan_pick \<noteq> []" by (simp add: galan_pick_def)
  have ne: "[doubles_event] \<noteq> []" by simp
  let ?out = "findMatchingEventWithDebug latin1 failing galan_pick [doubles_event] api_key"
  from resolution_policy_thresholds[OF pl ne, of latin1 api_key failing]
  have "snd ?out = snd (findMatchingEventLLM failing galan_pick [doubles_event] api_key) \<and>
        fst ?out = \<lparr> match_result.event = None, confidence = 0,
                      candidates = [\<lparr> candidate.event = doubles_event, score = lit02 \<rparr>] \<rparr>"
    by (simp add: doubles_simple Let_def api_key_truthy failing_no_selection lit_values)
  then show ?thesis by (simp add: prod_eq_iff)
qed

text \<open>
  C3, as amended. For a pick with no players: when the event list is empty or no resolver
  is available, resolution returns no event with confidence 0 and sends no request; when
  the event list is not empty and a resolver is available, the resolver is invoked once,
  and the result is its selection with confidence 0.9, or no event with confidence 0
  when it selects nothing. The candidate list is empty in every case.
\<close>

theorem empty_players_resolution:
  assumes "players p = []"
  shows "(events = [] \<or> \<not> truthy key \<longrightarrow>
            findMatchingEventWithDebug U llm p events key =
              (\<lparr> match_result.event = None, confidence = 0, candidates = [] \<rparr>, [])) \<and>
         (events \<noteq> [] \<and> truthy key \<longrightarrow>
            findMatchingEventWithDebug U llm p events key =
              (case fst (findMatchingEventLLM llm p events key) of
                 Some e \<Rightarrow> \<lparr> match_result.event = Some e, confidence = lit09, candidates = [] \<rparr>
               | None \<Rightarrow> \<lparr> match_result.event = None, confidence = 0, candidates = [] \<rparr>,
               [\<lparr> apiKey = key, parsedPick = p, summaries = eventSummaries events \<rparr>]))"
proof (intro conjI impI)
  assume "events = [] \<or> \<not> truthy key"
  then show "findMatchingEventWithDebug U llm p events key =
      (\<lparr> match_result.event = None, confidence = 0, candidates = [] \<rparr>, [])"
    using policy_no_resolver[of events key U p llm] simple_no_players[OF assms, of U events]
    by (cases "events = []") (auto simp: policy_empty candidates_of_def)
next
  assume "events \<noteq> [] \<and> truthy key"
  then show "findMatchingEventWithDebug U llm p events key =
      (case fst (findMatchingEventLLM llm p events key) of
         Some e \<Rightarrow> \<lparr> match_result.event = Some e, confidence = lit09, candidates = [] \<rparr>
       | None \<Rightarrow> \<lparr> match_result.event = None, confidence = 0, candidates = [] \<rparr>,
       [\<lparr> apiKey = key, parsedPick = p, summaries = eventSummaries events \<rparr>])"
    by (simp add: policy_escalate simple_no_players[OF assms] candidates_of_def
          split: option.splits)
qed

lemma no_players_selected:
  "findMatchingEventWithDebug latin1 (selecting (JNumber 0) 1) no_players_pick [galan_event] api_key =
     (\<lparr> match_result.event = Some galan_event, confidence = lit09, candidates = [] \<rparr>,
      [\<lparr> apiKey = api_key, parsedPick = no_players_pick, summaries = eventSummaries [galan_event] \<rparr>])"
proof -
  have "players no_players_pick = []" by (simp add: no_players_pick_def)
  then have none: "findMatchingEventSimple latin1 no_players_pick [galan_event] = None"
    by (rule simple_no_players)
  have "fst (findMatchingEventLLM (selecting (JNumber (of_nat 0)) 1) no_players_pick [galan_event] api_key) =
          Some ([galan_event] ! 0)"
    by (rule llm_selects) simp
  then have sel: "fst (findMatchingEventLLM (selecting (JNumber 0) 1) no_players_pick [galan_event] api_key) =
          Some galan_event" by simp
  show ?thesis
    by (simp add: policy_escalate none sel api_key_truthy candidates_of_def split: option.splits)
qed

theorem empty_players_resolution_witness:
  "findMatchingEventWithDebug latin1 (selecting (JNumber 0) 1) no_players_pick [galan_event] None =
     (\<lparr> match_result.event = None, confidence = 0, candidates = [] \<rparr>, []) \<and>
   findMatchingEventWithDebug latin1 failing no_players_pick [galan_event] api_key =
     (\<lparr> match_result.event = None, confidence = 0, candidates = [] \<rparr>,
      [\<lparr> apiKey = api_key, parsedPick = no_players_pick, summaries = eventSummaries [galan_event] \<rparr>])"
proof -
  have pl: "players no_players_pick = []" by (simp add: no_players_pick_def)
  from empty_players_resolution[OF pl, of "[galan_event]" None latin1 "selecting (JNumber 0) 1"]
  have "findMatchingEventWithDebug latin1 (selecting (JNumber 0) 1) no_players_pick [galan_event] None =
     (\<lparr> match_result.event = None, confidence = 0, candidates = [] \<rparr>, [])"
    by (simp add: truthy_def)
  moreover from empty_players_resolution[OF pl, of "[galan_event]" api_key latin1 failing]
  have "findMatchingEventWithDebug latin1 failing no_players_pick [galan_event] api_key =
     (\<lparr> match_result.event = None, confidence = 0, candidates = [] \<rparr>,
      [\<lparr> apiKey = api_key, parsedPick = no_players_pick, summaries = eventSummaries [galan_event] \<rparr>])"
    by (simp add: api_key_truthy failing_no_selection)
  ultimately show ?thesis by simp
qed

text \<open>
  The claim as stated fails: with no players, one event and a resolver that selects
  index 0, the policy invokes the resolver and returns its event with confidence 0.9.
\<close>

theorem empty_players_counterexample:
  "\<not> (\<forall>U llm p events key. players p = [] \<longrightarrow>
        match_result.event (fst (findMatchingEventWithDebug U llm p events key)) = None \<and>
        match_result.confidence (fst (findMatchingEventWithDebug U llm p events key)) = 0 \<and>
        snd (findMatchingEventWithDebug U llm p events key) = [])"
proof
  assume "\<forall>U llm p events key. players p = [] \<longrightarrow>
        match_result.event (fst (findMatchingEventWithDebug U llm p events key)) = None \<and>
        match_result.confidence (fst (findMatchingEventWithDebug U llm p events key)) = 0 \<and>
        snd (findMatchingEventWithDebug U llm p events key) = []"
  moreover have "players no_players_pick = []" by (simp add: no_players_pick_def)
  ultimately have "match_result.event (fst (findMatchingEventWithDebug latin1 (selecting (JNumber 0) 1)
      no_players_pick [galan_event] api_key)) = None" by blast
  then show False by (simp add: no_players_selected)
qed

text \<open>
  Every result of the policy is of one of four kinds: the empty result, the lexical
  result (confidence at least 0.3), the resolver's selection, or no event with the
  scorer's candidates.
\<close>

lemma at_least_mono: "at_least simpleResult a \<Longrightarrow> b \<le> a \<Longrightarrow> at_least simpleResult b"
  by (auto simp: at_least_def split: option.splits)

lemma policy_outcomes:
  fixes U llm p events key
  defines "simple \<equiv> findMatchingEventSimple U p events"
    and "out \<equiv> findMatchingEventWithDebug U llm p events key"
    and "selected \<equiv> fst (findMatchingEventLLM llm p events key)"
  shows "out = (\<lparr> match_result.event = None, confidence = 0, candidates = [] \<rparr>, []) \<or>
         (at_least simple lit03 \<and> fst out = lexical simple \<and> (snd out = [] \<or> selected = None)) \<or>
         (\<exists>e. selected = Some e \<and> snd out \<noteq> [] \<and>
              fst out = \<lparr> match_result.event = Some e, confidence = lit09,
                          candidates = candidates_of simple \<rparr>) \<or>
         fst out = \<lparr> match_result.event = None, confidence = 0, candidates = candidates_of simple \<rparr>"
proof -
  have seven: "at_least simple lit07 \<Longrightarrow> at_least simple lit05"
    by (erule at_least_mono) (rule lit_order)
  have five: "at_least simple lit05 \<Longrightarrow> at_least simple lit03"
    by (erule at_least_mono) (rule lit_order)
  consider (empty) "events = []"
    | (final) "events \<noteq> []" "at_least simple lit05 \<and> (at_least simple lit07 \<or> \<not> truthy key)"
    | (escalate) "events \<noteq> []" "truthy key" "\<not> at_least simple lit07"
    | (fallback) "events \<noteq> []" "\<not> truthy key" "\<not> at_least simple lit05"
    using seven by blast
  then show ?thesis
  proof cases
    case empty
    then show ?thesis by (simp add: out_def policy_empty)
  next
    case final
    then have "out = (lexical simple, [])"
      by (simp add: out_def simple_def findMatchingEventWithDebug_def Let_def)
    with final five show ?thesis by simp
  next
    case escalate
    note esc = policy_escalate[OF escalate[unfolded simple_def], of llm, folded simple_def out_def selected_def]
    show ?thesis
    proof (cases selected)
      case None
      with esc show ?thesis by (cases "at_least simple lit03") simp_all
    next
      case (Some e)
      with esc show ?thesis by (simp add: findMatchingEventLLM_def Let_def)
    qed
  next
    case fallback
    note fb = policy_no_resolver[OF fallback[unfolded simple_def], of llm, folded simple_def out_def]
    then show ?thesis by (cases "at_least simple lit03") simp_all
  qed
qed

lemma lexical_event_confidence:
  fixes U p events
  defines "simple \<equiv> findMatchingEventSimple U p events"
  shows "(match_result.event (lexical simple) = None \<longleftrightarrow> match_result.confidence (lexical simple) = 0)"
    and "at_least simple lit03 \<Longrightarrow> lit03 \<le> match_result.confidence (lexical simple)"
proof -
  show "(match_result.event (lexical simple) = None \<longleftrightarrow> match_result.confidence (lexical simple) = 0)"
  proof (cases simple)
    case None
    then show ?thesis by (simp add: lexical_def)
  next
    case (Some r)
    with simple_result_event_conf(1)[of U p events r] show ?thesis
      by (simp add: lexical_def simple_def)
  qed
  show "at_least simple lit03 \<Longrightarrow> lit03 \<le> match_result.confidence (lexical simple)"
    by (cases simple) (simp_all add: lexical_def)
qed

text \<open>
  C10. The result of the policy has no event exactly when its confidence is 0, and a
  result with an event has confidence at least 0.3: no matched event is returned with a
  confidence strictly between 0 and 0.3.
\<close>

theorem matched_event_confidence_floor:
  "(match_result.event (fst (findMatchingEventWithDebug U llm p events key)) = None \<longleftrightarrow>
      match_result.confidence (fst (findMatchingEventWithDebug U llm p events key)) = 0) \<and>
   (match_result.event (fst (findMatchingEventWithDebug U llm p events key)) \<noteq> None \<longrightarrow>
      lit03 \<le> match_result.confidence (fst (findMatchingEventWithDebug U llm p events key)))"
  using policy_outcomes[of U llm p events key] lexical_event_confidence[of U p events]
    lit_order(1,4,5)
  by (elim disjE conjE exE) auto

lemma galan_simple:
  "findMatchingEventSimple latin1 galan_pick [doubles_event, galan_event] =
     Some \<lparr> simple_result.event = Some galan_event, confidence = fadd lit02 lit06,
            allCandidates = [\<lparr> candidate.event = galan_event, score = fadd lit02 lit06 \<rparr>,
                             \<lparr> candidate.event = doubles_event, score = lit02 \<rparr>] \<rparr>"
proof -
  have "players galan_pick \<noteq> []" by (simp add: galan_pick_def)
  then show ?thesis
    by (simp add: findMatchingEventSimple_def array_sort_def Let_def doubles_score galan_score
          lit_values double_eval)
qed

lemma galan_resolved:
  "findMatchingEventWithDebug latin1 failing galan_pick [doubles_event, galan_event] None =
     (\<lparr> match_result.event = Some galan_event, confidence = fadd lit02 lit06,
        candidates = [\<lparr> candidate.event = galan_event, score = fadd lit02 lit06 \<rparr>,
                      \<lparr> candidate.event = doubles_event, score = lit02 \<rparr>] \<rparr>, [])"
proof -
  have "lit07 \<le> fadd lit02 lit06" by (simp add: lit_values double_eval)
  with policy_final[OF _ galan_simple, of None failing] show ?thesis by simp
qed

theorem matched_event_confidence_floor_witness:
  "match_result.event
     (fst (findMatchingEventWithDebug latin1 failing galan_pick [doubles_event, galan_event] None)) =
     Some galan_event \<and>
   lit03 \<le> match_result.confidence
     (fst (findMatchingEventWithDebug latin1 failing galan_pick [doubles_event, galan_event] None))"
proof -
  have ev: "match_result.event
     (fst (findMatchingEventWithDebug latin1 failing galan_pick [doubles_event, galan_event] None)) =
     Some galan_event"
    by (simp add: galan_resolved)
  with matched_event_confidence_floor[of latin1 failing galan_pick "[doubles_event, galan_event]" None]
  show ?thesis by simp
qed




lemma federer_simple:
  "findMatchingEventSimple latin1 federer_pick [galan_event] =
     Some \<lparr> simple_result.event = None, confidence = 0, allCandidates = [] \<rparr>"
proof -
  have "players federer_pick \<noteq> []" by (simp add: federer_pick_def)
  then show ?thesis
    by (simp add: findMatchingEventSimple_def array_sort_def Let_def federer_score)
qed







text \<open>
  C9, as amended. If the returned event is not null, the confidence is greater than 0;
  and when the event is the lexical scorer's (the resolver was not invoked, or selected
  nothing), the head of the returned candidates is the entry of that event. An event
  selected by the resolver need not have an entry.
\<close>

theorem matched_event_heads_candidates:
  "\<forall>e. match_result.event (fst (findMatchingEventWithDebug U llm p events key)) = Some e \<longrightarrow>
     0 < match_result.confidence (fst (findMatchingEventWithDebug U llm p events key)) \<and>
     (snd (findMatchingEventWithDebug U llm p events key) = [] \<or>
      fst (findMatchingEventLLM llm p events key) = None \<longrightarrow>
        candidates (fst (findMatchingEventWithDebug U llm p events key)) \<noteq> [] \<and>
        candidate.event (hd (candidates (fst (findMatchingEventWithDebug U llm p events key)))) = e)"
proof (intro allI impI)
  fix e
  let ?simple = "findMatchingEventSimple U p events"
  let ?out = "findMatchingEventWithDebug U llm p events key"
  let ?selected = "fst (findMatchingEventLLM llm p events key)"
  assume ev: "match_result.event (fst ?out) = Some e"
  note conf = lexical_event_confidence[of U p events]
  from policy_outcomes[of U llm p events key]
  consider (lexical) "at_least ?simple lit03" "fst ?out = lexical ?simple"
    | (selected) "?selected \<noteq> None" "snd ?out \<noteq> []" "match_result.confidence (fst ?out) = lit09"
    | (none) "match_result.event (fst ?out) = None"
    by (elim disjE conjE exE) simp_all
  then show "0 < match_result.confidence (fst ?out) \<and>
     (snd ?out = [] \<or> ?selected = None \<longrightarrow>
        candidates (fst ?out) \<noteq> [] \<and> candidate.event (hd (candidates (fst ?out))) = e)"
  proof cases
    case lexical
    with ev obtain r where r: "?simple = Some r" "simple_result.event r = Some e"
      "candidates (fst ?out) = allCandidates r"
      by (cases ?simple) (simp_all add: lexical_def candidates_of_def)
    from conf(2)[OF lexical(1)] lexical(2) lit_order(1)
    have "0 < match_result.confidence (fst ?out)" by simp
    with simple_result_head[OF r(1,2)] r(3) show ?thesis by simp
  next
    case selected
    with lit_order(5) show ?thesis by auto
  next
    case none
    with ev show ?thesis by simp
  qed
qed

theorem matched_event_heads_candidates_witness:
  "candidate.event (hd (candidates
     (fst (findMatchingEventWithDebug latin1 failing galan_pick [doubles_event, galan_event] None)))) =
   galan_event"
proof -
  have "match_result.event
     (fst (findMatchingEventWithDebug latin1 failing galan_pick [doubles_event, galan_event] None)) =
     Some galan_event"
    and "snd (findMatchingEventWithDebug latin1 failing galan_pick [doubles_event, galan_event] None) = []"
    by (simp_all add: galan_resolved)
  with matched_event_heads_candidates[of latin1 failing galan_pick "[doubles_event, galan_event]" None]
  show ?thesis by blast
qed

lemma federer_selected:
  "fst (findMatchingEventWithDebug latin1 (selecting (JNumber 0) 1) federer_pick [galan_event] api_key) =
     \<lparr> match_result.event = Some galan_event, confidence = lit09, candidates = [] \<rparr>"
proof -
  have "fst (findMatchingEventLLM (selecting (JNumber (of_nat 0)) 1) federer_pick [galan_event] api_key) =
          Some ([galan_event] ! 0)"
    by (rule llm_selects) simp
  then show ?thesis
    by (simp add: policy_escalate api_key_truthy federer_simple candidates_of_def lit_values)
qed

text \<open>
  The claim as stated fails: the resolver selects an event whose lexical score is 0, and
  the policy returns it with confidence 0.9 and an empty candidate list.
\<close>

theorem matched_event_entry_counterexample:
  "\<not> (\<forall>U llm p events key e.
        match_result.event (fst (findMatchingEventWithDebug U llm p events key)) = Some e \<longrightarrow>
        0 < match_result.confidence (fst (findMatchingEventWithDebug U llm p events key)) \<and>
        (\<exists>c \<in> set (candidates (fst (findMatchingEventWithDebug U llm p events key))).
           candidate.event c = e))"
proof
  assume "\<forall>U llm p events key e.
        match_result.event (fst (findMatchingEventWithDebug U llm p events key)) = Some e \<longrightarrow>
        0 < match_result.confidence (fst (findMatchingEventWithDebug U llm p events key)) \<and>
        (\<exists>c \<in> set (candidates (fst (findMatchingEventWithDebug U llm p events key))).
           candidate.event c = e)"
  moreover have "match_result.event
      (fst (findMatchingEventWithDebug latin1 (selecting (JNumber 0) 1) federer_pick [galan_event] api_key)) =
      Some galan_event"
    by (simp add: federer_selected)
  ultimately have "\<exists>c \<in> set (candidates
      (fst (findMatchingEventWithDebug latin1 (selecting (JNumber 0) 1) federer_pick [galan_event] api_key))).
      candidate.event c = galan_event"
    by blast
  then show False by (simp add: federer_selected)
qed

lemma federer_doubles_score: "event_score latin1 federer_pick doubles_event = 0"
  by (simp add: scorer_defs doubles_event_def federer_pick_def host_defs)

lemma federer_fifty_one:
  "findMatchingEventSimple latin1 federer_pick fifty_one_events =
     Some \<lparr> simple_result.event = None, confidence = 0, allCandidates = [] \<rparr>"
proof -
  have pl: "players federer_pick \<noteq> []" by (simp add: federer_pick_def)
  have "set fifty_one_events = {doubles_event, galan_event}"
    by (auto simp: fifty_one_events_def)
  then have top: "top_score latin1 federer_pick fifty_one_events = 0"
    by (simp add: top_score_def federer_score federer_doubles_score)
  have "filter (\<lambda>e. 0 < event_score latin1 federer_pick e) fifty_one_events = []"
    by (auto simp: fifty_one_events_def federer_score federer_doubles_score)
  then have "pushed latin1 federer_pick fifty_one_events = []" by (simp add: pushed_def)
  with top show ?thesis by (simp add: simple_result_shape[OF pl])
qed

text \<open>
  C4 does not hold of the code. The resolver is sent the first 50 of 51 events, with the
  indices 0 to 49, and answers with index 50; \<^verbatim>\<open>findMatchingEventLLM\<close> tests the index against
  \<^verbatim>\<open>events.length\<close>, not against the length of the slice, so the policy indexes the event
  list with 50 and returns the event that was never sent, with confidence 0.9.
\<close>

theorem index_beyond_slice_selected:
  "length fifty_one_events = 51 \<and>
   map event_summary.index (eventSummaries fifty_one_events) = [0..<50] \<and>
   findMatchingEventWithDebug latin1 (selecting (JNumber 50) 1) federer_pick fifty_one_events api_key =
     (\<lparr> match_result.event = Some galan_event, confidence = lit09, candidates = [] \<rparr>,
      [\<lparr> apiKey = api_key, parsedPick = federer_pick,
         summaries = eventSummaries fifty_one_events \<rparr>])"
proof (intro conjI)
  show len: "length fifty_one_events = 51" by (simp add: fifty_one_events_def)
  have "map event_summary.index (eventSummaries fifty_one_events) =
          map fst (enumerate 0 (take 50 fifty_one_events))"
    by (simp add: eventSummaries_def summary_def comp_def case_prod_unfold)
  also have "\<dots> = [0..<50]" by (simp add: map_fst_enumerate fifty_one_events_def)
  finally show "map event_summary.index (eventSummaries fifty_one_events) = [0..<50]" .
  have "fst (findMatchingEventLLM (selecting (JNumber (of_nat 50)) 1) federer_pick fifty_one_events api_key) =
          Some (fifty_one_events ! 50)"
    by (rule llm_selects) (simp add: len)
  moreover have "fifty_one_events ! 50 = galan_event"
    by (simp add: fifty_one_events_def nth_append)
  ultimately have sel: "fst (findMatchingEventLLM (selecting (JNumber 50) 1) federer_pick fifty_one_events api_key) =
          Some galan_event" by simp
  have ne: "fifty_one_events \<noteq> []" by (simp add: fifty_one_events_def)
  show "findMatchingEventWithDebug latin1 (selecting (JNumber 50) 1) federer_pick fifty_one_events api_key =
     (\<lparr> match_result.event = Some galan_event, confidence = lit09, candidates = [] \<rparr>,
      [\<lparr> apiKey = api_key, parsedPick = federer_pick,
         summaries = eventSummaries fifty_one_events \<rparr>])"
    using sel
    by (simp add: policy_escalate ne api_key_truthy federer_fifty_one candidates_of_def lit_values)
qed
text \<open>
  What the guard of \<^verbatim>\<open>findMatchingEventLLM\<close> does ensure: an event that the resolver path
  returns is an element of the event list, and an answer whose \<^verbatim>\<open>matchIndex\<close> is a number
  that is negative, not below \<^verbatim>\<open>events.length\<close> or not an integer selects nothing.
\<close>

theorem resolver_selection_in_events:
  "(\<forall>e. fst (findMatchingEventLLM llm p events key) = Some e \<longrightarrow> e \<in> set events) \<and>
   (\<forall>members rest i.
      llm \<lparr> apiKey = key, parsedPick = p, summaries = eventSummaries events \<rparr> =
        Message (TextBlock (Parsed (JObject members)) # rest) \<and>
      map_of (rev members) (ascii ''matchIndex'') = Some (JNumber i) \<and>
      (i < 0 \<or> of_nat (length events) \<le> i \<or> of_int \<lfloor>i\<rfloor> \<noteq> i) \<longrightarrow>
      fst (findMatchingEventLLM llm p events key) = None)"
proof (intro conjI allI impI)
  fix e assume "fst (findMatchingEventLLM llm p events key) = Some e"
  then show "e \<in> set events"
    by (auto simp: llm_selection split: option.splits if_splits)
next
  fix members rest i
  assume "llm \<lparr> apiKey = key, parsedPick = p, summaries = eventSummaries events \<rparr> =
        Message (TextBlock (Parsed (JObject members)) # rest) \<and>
      map_of (rev members) (ascii ''matchIndex'') = Some (JNumber i) \<and>
      (i < 0 \<or> of_nat (length events) \<le> i \<or> of_int \<lfloor>i\<rfloor> \<noteq> i)"
  then show "fst (findMatchingEventLLM llm p events key) = None"
    by (auto simp: findMatchingEventLLM_def try_block_def get_property_def guarded_read_def
          array_get_def Let_def)
qed

theorem resolver_selection_in_events_witness:
  "fst (findMatchingEventLLM (selecting (JNumber 1) 1) federer_pick [galan_event] api_key) = None \<and>
   fst (findMatchingEventLLM (selecting (JNumber (1 / 2)) 1) federer_pick [galan_event] api_key) = None"
proof -
  let ?request = "\<lparr> apiKey = api_key, parsedPick = federer_pick, summaries = eventSummaries [galan_event] \<rparr>"
  let ?one = "[(ascii ''matchIndex'', JNumber 1), (ascii ''confidence'', JNumber 1),
      (ascii ''reasoning'', JString [])]"
  let ?half = "[(ascii ''matchIndex'', JNumber (1 / 2)), (ascii ''confidence'', JNumber 1),
      (ascii ''reasoning'', JString [])]"
  have a: "selecting (JNumber 1) 1 ?request = Message (TextBlock (Parsed (JObject ?one)) # [])"
    and b: "selecting (JNumber (1 / 2)) 1 ?request = Message (TextBlock (Parsed (JObject ?half)) # [])"
    by (simp_all add: selecting_def)
  have ma: "map_of (rev ?one) (ascii ''matchIndex'') = Some (JNumber 1)"
    and mb: "map_of (rev ?half) (ascii ''matchIndex'') = Some (JNumber (1 / 2))"
    by (rule matchIndex_member)+
  have ca: "(1::real) < 0 \<or> of_nat (length [galan_event]) \<le> (1::real) \<or> of_int \<lfloor>1::real\<rfloor> \<noteq> (1::real)"
    by simp
  have "\<lfloor>1 / 2 :: real\<rfloor> = 0" by (simp add: floor_eq_iff)
  then have cb: "(1 / 2 :: real) < 0 \<or> of_nat (length [galan_event]) \<le> (1 / 2 :: real) \<or>
      of_int \<lfloor>1 / 2 :: real\<rfloor> \<noteq> (1 / 2 :: real)"
    by (simp only: of_int_0) simp
  from resolver_selection_in_events[of "selecting (JNumber 1) 1" federer_pick "[galan_event]" api_key] a ma ca
  have "fst (findMatchingEventLLM (selecting (JNumber 1) 1) federer_pick [galan_event] api_key) = None"
    by blast
  moreover
  from resolver_selection_in_events[of "selecting (JNumber (1 / 2)) 1" federer_pick "[galan_event]" api_key] b mb cb
  have "fst (findMatchingEventLLM (selecting (JNumber (1 / 2)) 1) federer_pick [galan_event] api_key) = None"
    by blast
  ultimately show ?thesis by (rule conjI)
qed

end
